theory Spec2Isabelle
  imports Complex_Main
begin

section \<open>Pieces, boards and information sets\<close>

text \<open>
  The two players and the cell contents of a board. In the source these are the strings
  \<^verbatim>\<open>pieces.C_PLAYER1\<close>, \<^verbatim>\<open>pieces.C_PLAYER2\<close> and \<^verbatim>\<open>pieces.NEUTRAL\<close>
  (the empty cell, also written \<^verbatim>\<open>'.'\<close> in \<^verbatim>\<open>__add_stone\<close> and
  \<^verbatim>\<open>__is_board_legal\<close>); a board is a flat list of cells.
\<close>

datatype player = C_PLAYER1 | C_PLAYER2

datatype cell = NEUTRAL | Stone player

text \<open>
  \<^verbatim>\<open>get_infoset([player, *board, h])\<close> builds the tuple
  \<^verbatim>\<open>(player, c0, ..., cn, h)\<close>; the triple below carries the same data.
\<close>

type_synonym infoset = "player \<times> cell list \<times> int"

definition get_infoset :: "player \<Rightarrow> cell list \<Rightarrow> int \<Rightarrow> infoset" where
  "get_infoset p b hid = (p, b, hid)"

definition reverse_player :: "player \<Rightarrow> player" where
  "reverse_player p = (if p = C_PLAYER2 then C_PLAYER1 else C_PLAYER2)"

section \<open>Node: the per-information-set record\<close>

text \<open>
  The numpy arrays \<^verbatim>\<open>strategy\<close>, \<^verbatim>\<open>regretSum\<close> and \<^verbatim>\<open>strategySum\<close> are
  lists of reals (exact arithmetic stands for float64); \<^verbatim>\<open>T\<close> and \<^verbatim>\<open>visits\<close>
  are Python integers.
\<close>

record node =
  player :: player
  num_actions :: nat
  move_history :: "nat list"
  board :: "cell list"
  h :: int
  infoSet :: infoset
  strategy :: "real list"
  regretSum :: "real list"
  strategySum :: "real list"
  T :: int
  u :: real
  pSum1 :: real
  pSum2 :: real
  visits :: int
  pos_actions :: "nat list"
  is_terminal :: bool

definition Node_init :: "cell list \<Rightarrow> nat list \<Rightarrow> player \<Rightarrow> int \<Rightarrow> node" where
  "Node_init b mh p hid =
     \<lparr> player = p,
       num_actions = length b,
       move_history = mh,
       board = b,
       h = hid,
       infoSet = get_infoset p b hid,
       strategy = replicate (length b) 0,
       regretSum = replicate (length b) 0,
       strategySum = replicate (length b) 0,
       T = 0,
       u = 0,
       pSum1 = 1,
       pSum2 = 1,
       visits = 1,
       pos_actions = filter (\<lambda>i. b ! i = NEUTRAL) [0..<length b],
       is_terminal = False \<rparr>"

text \<open>First loop of \<^verbatim>\<open>getStrategy\<close>: clip the regrets at zero and add them up.\<close>

definition getStrategy_clip :: "node \<Rightarrow> node \<times> real" where
  "getStrategy_clip n =
     fold (\<lambda>a (n, normalizingSum).
             let n' = n\<lparr>strategy := (strategy n)[a := max (regretSum n ! a) 0]\<rparr>
             in (n', normalizingSum + strategy n' ! a))
          [0..<length (strategy n)] (n, 0)"

text \<open>Second loop: normalise (or fall back to uniform) and accumulate \<^verbatim>\<open>strategySum\<close>.\<close>

definition getStrategy_normalize :: "real \<Rightarrow> node \<Rightarrow> node" where
  "getStrategy_normalize normalizingSum n =
     fold (\<lambda>a n.
             let n1 = (if normalizingSum > 0
                       then n\<lparr>strategy := (strategy n)[a := strategy n ! a / normalizingSum]\<rparr>
                       else n\<lparr>strategy := (strategy n)[a := 1 / real (length (strategy n))]\<rparr>)
             in n1\<lparr>strategySum := (strategySum n1)
                       [a := strategySum n1 ! a +
                             strategy n1 ! a * (if player n1 = C_PLAYER1 then pSum1 n1 else pSum2 n1)]\<rparr>)
          [0..<length (strategy n)] n"

text \<open>
  \<^verbatim>\<open>getStrategy\<close> mutates the node and returns its \<^verbatim>\<open>strategy\<close> array: the
  model returns the array together with the mutated node.
\<close>

definition getStrategy :: "node \<Rightarrow> real list \<times> node" where
  "getStrategy n =
     (case getStrategy_clip n of
        (n1, normalizingSum) \<Rightarrow>
          let n2 = getStrategy_normalize normalizingSum n1 in (strategy n2, n2))"

text \<open>First loop of \<^verbatim>\<open>getAverageStrategy\<close>: the total of \<^verbatim>\<open>strategySum\<close>.\<close>

definition getAverageStrategy_total :: "node \<Rightarrow> real" where
  "getAverageStrategy_total n =
     fold (\<lambda>a normalizingSum. normalizingSum + strategySum n ! a)
          [0..<length (strategySum n)] 0"

text \<open>Second loop: divide in place, or overwrite with the uniform value.\<close>

definition getAverageStrategy_normalize :: "real \<Rightarrow> node \<Rightarrow> node" where
  "getAverageStrategy_normalize normalizingSum n =
     fold (\<lambda>a n.
             if normalizingSum > 0
             then n\<lparr>strategySum := (strategySum n)[a := strategySum n ! a / normalizingSum]\<rparr>
             else n\<lparr>strategySum := (strategySum n)[a := 1 / real (length (strategySum n))]\<rparr>)
          [0..<length (strategySum n)] n"

definition getAverageStrategy :: "node \<Rightarrow> real list \<times> node" where
  "getAverageStrategy n =
     (let n' = getAverageStrategy_normalize (getAverageStrategy_total n) n
      in (strategySum n', n'))"

text \<open>Well-formed nodes: the three arrays and the board have \<^verbatim>\<open>num_actions\<close> entries.\<close>

definition node_wf :: "node \<Rightarrow> bool" where
  "node_wf n \<longleftrightarrow>
     length (board n) = num_actions n \<and>
     length (strategy n) = num_actions n \<and>
     length (regretSum n) = num_actions n \<and>
     length (strategySum n) = num_actions n \<and>
     pos_actions n = filter (\<lambda>i. board n ! i = NEUTRAL) [0..<num_actions n]"

text \<open>Regret matching as a function of the regret vector.\<close>

definition regret_matching :: "real list \<Rightarrow> real list" where
  "regret_matching rs =
     (let pos = map (\<lambda>r. max r 0) rs; s = sum_list pos
      in if s > 0 then map (\<lambda>x. x / s) pos else replicate (length rs) (1 / real (length rs)))"

definition reach_weight :: "node \<Rightarrow> real" where
  "reach_weight n = (if player n = C_PLAYER1 then pSum1 n else pSum2 n)"

text \<open>The \<^verbatim>\<open>strategySum\<close> array after one call of \<^verbatim>\<open>getStrategy\<close>.\<close>

definition strategySum_step :: "node \<Rightarrow> real list" where
  "strategySum_step n = map (\<lambda>a. strategySum n ! a + regret_matching (regretSum n) ! a * reach_weight n) [0..<num_actions n]"

text \<open>The normalisation \<^verbatim>\<open>getAverageStrategy\<close> performs, as a function of the old array.\<close>

definition average_strategy :: "real list \<Rightarrow> real list" where
  "average_strategy xs =
     map (\<lambda>x. if 0 < sum_list xs then x / sum_list xs else 1 / real (length xs)) xs"

section \<open>The rule engine (class \<^verbatim>\<open>Hex\<close>)\<close>

text \<open>
  The classes \<^verbatim>\<open>Hex\<close> and \<^verbatim>\<open>DarkHex\<close> of \<^verbatim>\<open>Projects.base.game\<close> are not part
  of the sources; the trainer and the builder only call them. They are parameters of the
  model. \<^verbatim>\<open>game_status()\<close> answers with a player (the winner), with \<^verbatim>\<open>'='\<close> (no
  winner yet) or, in legality mode, with \<^verbatim>\<open>'i'\<close> (illegal board).
\<close>

datatype status = Winner player | Undecided | IllegalBoard

text \<open>
  \<^verbatim>\<open>game_status E (rows, cols) b\<close> is
  \<^verbatim>\<open>Hex(BOARD_SIZE=[rows, cols], BOARD=b, verbose=False).game_status()\<close>;
  \<^verbatim>\<open>legality_status\<close> and \<^verbatim>\<open>legality_turn_info\<close> are \<^verbatim>\<open>game_status()\<close> and
  \<^verbatim>\<open>turn_info()\<close> of
  \<^verbatim>\<open>Hex(BOARD_SIZE=[rows, cols], BOARD=b, legality_check=True, h_player=p, h=k)\<close>.
\<close>

record hex_rules =
  game_status :: "nat \<times> nat \<Rightarrow> cell list \<Rightarrow> status"
  legality_status :: "nat \<times> nat \<Rightarrow> cell list \<Rightarrow> player \<Rightarrow> int \<Rightarrow> status"
  legality_turn_info :: "nat \<times> nat \<Rightarrow> cell list \<Rightarrow> player \<Rightarrow> int \<Rightarrow> player"

section \<open>FSICFR: the solver object and its training loop\<close>

text \<open>
  \<^verbatim>\<open>self.nodes\<close> is the arena of node objects; \<^verbatim>\<open>self.nodes_dict\<close> refers to the
  same objects, so it maps an information set to a position in the arena.
\<close>

record fsicfr =
  num_rows :: nat
  num_cols :: nat
  cfr_num_actions :: nat
  nodes :: "node list"
  nodes_dict :: "infoset \<Rightarrow> nat option"

text \<open>
  What can go wrong in \<^verbatim>\<open>train\<close>: unpacking \<^verbatim>\<open>*new_board\<close> when
  \<^verbatim>\<open>__add_stone\<close> returned \<^verbatim>\<open>False\<close> (a \<^verbatim>\<open>TypeError\<close>), and a zero denominator
  in the regret update (numpy answers inf or nan, which the reals do not have; the model
  stops there).
\<close>

datatype py_error = TypeError | ZeroDivisionError

fun foldM :: "('a \<Rightarrow> 's \<Rightarrow> py_error + 's) \<Rightarrow> 'a list \<Rightarrow> 's \<Rightarrow> py_error + 's" where
  "foldM f [] s = Inr s"
| "foldM f (x # xs) s = (case f x s of Inl e \<Rightarrow> Inl e | Inr s' \<Rightarrow> foldM f xs s')"

text \<open>\<^verbatim>\<open>__add_stone\<close>: \<^verbatim>\<open>None\<close> stands for the returned \<^verbatim>\<open>False\<close>.\<close>

definition add_stone :: "cell list \<Rightarrow> nat \<Rightarrow> player \<Rightarrow> cell list option" where
  "add_stone b action p =
     (if b ! action \<noteq> NEUTRAL then None else Some (b[action := Stone p]))"

definition update_node :: "nat \<Rightarrow> (node \<Rightarrow> node) \<Rightarrow> fsicfr \<Rightarrow> fsicfr" where
  "update_node i f self = self\<lparr>nodes := (nodes self)[i := f (nodes self ! i)]\<rparr>"

text \<open>
  Forward pass, body of \<^verbatim>\<open>for infoset_c in children\<close>: the child \<^verbatim>\<open>c\<close> gains the
  visits and the reach of node \<^verbatim>\<open>i\<close>; \<^verbatim>\<open>strat\<close> is the array \<^verbatim>\<open>getStrategy\<close>
  returned for node \<^verbatim>\<open>i\<close>.
\<close>

definition forward_child :: "nat \<Rightarrow> real list \<Rightarrow> nat \<Rightarrow> infoset \<Rightarrow> fsicfr \<Rightarrow> fsicfr" where
  "forward_child i strat a infoset_c self =
     (case nodes_dict self infoset_c of
        None \<Rightarrow> self
      | Some c \<Rightarrow>
          let self1 = update_node c (\<lambda>n. n\<lparr>visits := visits n + visits (nodes self ! i)\<rparr>) self;
              self2 = update_node c
                (\<lambda>n. n\<lparr>pSum1 := pSum1 n +
                   (if player (nodes self1 ! i) = C_PLAYER1
                    then strat ! a * pSum1 (nodes self1 ! i) else pSum1 (nodes self1 ! i))\<rparr>) self1
          in update_node c
                (\<lambda>n. n\<lparr>pSum2 := pSum2 n +
                   (if player (nodes self2 ! i) = C_PLAYER2
                    then strat ! a * pSum2 (nodes self2 ! i) else pSum2 (nodes self2 ! i))\<rparr>) self2)"

text \<open>
  Both passes derive the successor information sets of a node for an action in the same
  way: the node's player places a stone at the cell, hidden count unchanged; and, when
  the hidden count is positive, the opponent's stone is revealed there, hidden count
  minus one. The result is \<^verbatim>\<open>None\<close> when \<^verbatim>\<open>__add_stone\<close> answers \<^verbatim>\<open>False\<close>.
\<close>

definition successors :: "node \<Rightarrow> nat \<Rightarrow> infoset list option" where
  "successors node a =
     (let rev_player = (if player node = C_PLAYER2 then C_PLAYER1 else C_PLAYER2)
      in case add_stone (board node) a (player node) of
           None \<Rightarrow> None
         | Some new_board \<Rightarrow>
             let children = [get_infoset (player node) new_board (h node)]
             in if h node > 0
                then (case add_stone (board node) a rev_player of
                        None \<Rightarrow> None
                      | Some new_board2 \<Rightarrow>
                          Some (children @ [get_infoset (player node) new_board2 (h node - 1)]))
                else Some children)"

text \<open>
  Forward pass, body of \<^verbatim>\<open>for a in node.pos_actions\<close>: the forward pass unpacks the
  result of \<^verbatim>\<open>__add_stone\<close> unchecked.
\<close>

definition forward_action :: "nat \<Rightarrow> real list \<Rightarrow> nat \<Rightarrow> fsicfr \<Rightarrow> py_error + fsicfr" where
  "forward_action i strat a self =
     (case successors (nodes self ! i) a of
        None \<Rightarrow> Inl TypeError
      | Some children \<Rightarrow> Inr (fold (forward_child i strat a) children self))"

text \<open>Forward pass, body of \<^verbatim>\<open>for node in self.nodes\<close>.\<close>

definition forward_node :: "nat \<Rightarrow> fsicfr \<Rightarrow> py_error + fsicfr" where
  "forward_node i self =
     (case getStrategy (nodes self ! i) of
        (strat, node') \<Rightarrow>
          let self1 = self\<lparr>nodes := (nodes self)[i := node']\<rparr>
          in foldM (forward_action i strat) (pos_actions (nodes self1 ! i)) self1)"

definition forward_pass :: "fsicfr \<Rightarrow> py_error + fsicfr" where
  "forward_pass self = foldM forward_node [0..<length (nodes self)] self"

text \<open>
  Backward pass, body of \<^verbatim>\<open>for _, infoset_c in enumerate(children)\<close>: the state is the
  arena together with the scratch list \<^verbatim>\<open>regret\<close>.
\<close>

definition backward_child ::
    "nat \<Rightarrow> real list \<Rightarrow> nat \<Rightarrow> infoset \<Rightarrow> fsicfr \<times> real list \<Rightarrow> fsicfr \<times> real list" where
  "backward_child i strat a infoset_c = (\<lambda>(self, regret).
     case nodes_dict self infoset_c of
       None \<Rightarrow> (self, regret)
     | Some c \<Rightarrow>
         let childUtil = (if player (nodes self ! c) = player (nodes self ! i)
                          then u (nodes self ! c) else - u (nodes self ! c))
         in (update_node i (\<lambda>n. n\<lparr>u := u n + strat ! a * childUtil\<rparr>) self,
             regret[a := regret ! a + childUtil]))"

text \<open>
  Backward pass, body of \<^verbatim>\<open>for a in range(self.num_actions)\<close>: \<^verbatim>\<open>continue\<close>
  leaves the state as it is.
\<close>

definition backward_action ::
    "nat \<Rightarrow> real list \<Rightarrow> nat \<Rightarrow> fsicfr \<times> real list \<Rightarrow> fsicfr \<times> real list" where
  "backward_action i strat a = (\<lambda>(self, regret).
     case successors (nodes self ! i) a of
       None \<Rightarrow> (self, regret)
     | Some children \<Rightarrow> fold (backward_child i strat a) children (self, regret))"

text \<open>The regret update, body of the second \<^verbatim>\<open>for a in node.pos_actions\<close>.\<close>

definition regret_update :: "real \<Rightarrow> real list \<Rightarrow> nat \<Rightarrow> node \<Rightarrow> py_error + node" where
  "regret_update cfp regret a n =
     (let nomin = real_of_int (T n) * regretSum n ! a +
                  real_of_int (visits n) * cfp * (regret ! a - u n);
          denom = T n + visits n
      in if denom = 0 then Inl ZeroDivisionError
         else Inr (n\<lparr>regretSum := (regretSum n)[a := nomin / real_of_int denom]\<rparr>))"

text \<open>The \<^verbatim>\<open>else\<close> branch of the backward pass: a node the rule engine calls undecided.\<close>

definition backward_inner ::
    "nat \<Rightarrow> real list \<Rightarrow> fsicfr \<times> real list \<Rightarrow> py_error + fsicfr \<times> real list" where
  "backward_inner i strat = (\<lambda>(self, regret).
     case fold (backward_action i strat) [0..<cfr_num_actions self] (self, regret) of
       (self2, regret2) \<Rightarrow>
         let node = nodes self2 ! i;
             cfp = (if player node = C_PLAYER1 then pSum2 node else pSum1 node)
         in case foldM (regret_update cfp regret2) (pos_actions node) node of
              Inl e \<Rightarrow> Inl e
            | Inr node3 \<Rightarrow>
                Inr (self2\<lparr>nodes := (nodes self2)[i := node3\<lparr>T := T node3 + visits node3\<rparr>]\<rparr>,
                     regret2))"

text \<open>The last three assignments of the backward pass.\<close>

definition reset_transients :: "node \<Rightarrow> node" where
  "reset_transients n = n\<lparr>visits := 0, pSum1 := 0, pSum2 := 0\<rparr>"

text \<open>Backward pass, body of \<^verbatim>\<open>for node in self.nodes[::-1]\<close>.\<close>

definition backward_node ::
    "hex_rules \<Rightarrow> nat \<Rightarrow> fsicfr \<times> real list \<Rightarrow> py_error + fsicfr \<times> real list" where
  "backward_node E i = (\<lambda>(self, regret).
     case getStrategy (nodes self ! i) of
       (strat, node') \<Rightarrow>
         let self1 = self\<lparr>nodes := (nodes self)[i := node']\<rparr>;
             node = nodes self1 ! i;
             st = game_status E (num_rows self1, num_cols self1) (board node)
         in case (if st = Winner (player node)
                  then Inr (update_node i (\<lambda>n. n\<lparr>u := 1\<rparr>) self1, regret)
                  else if st \<noteq> Undecided
                  then Inr (update_node i (\<lambda>n. n\<lparr>u := - 1\<rparr>) self1, regret)
                  else backward_inner i strat (self1, regret)) of
              Inl e \<Rightarrow> Inl e
            | Inr (self3, regret3) \<Rightarrow> Inr (update_node i reset_transients self3, regret3))"

definition backward_pass ::
    "hex_rules \<Rightarrow> fsicfr \<times> real list \<Rightarrow> py_error + fsicfr \<times> real list" where
  "backward_pass E = (\<lambda>(self, regret).
     foldM (backward_node E) (rev [0..<length (nodes self)]) (self, regret))"

text \<open>One round of the loop \<^verbatim>\<open>for it in range(num_of_iterations)\<close>.\<close>

definition train_iteration ::
    "hex_rules \<Rightarrow> fsicfr \<times> real list \<Rightarrow> py_error + fsicfr \<times> real list" where
  "train_iteration E = (\<lambda>(self, regret).
     case forward_pass self of
       Inl e \<Rightarrow> Inl e
     | Inr self1 \<Rightarrow> backward_pass E (self1, regret))"

fun train_iterations ::
    "hex_rules \<Rightarrow> nat \<Rightarrow> fsicfr \<times> real list \<Rightarrow> py_error + fsicfr \<times> real list" where
  "train_iterations E 0 s = Inr s"
| "train_iterations E (Suc k) s =
     (case train_iterations E k s of Inl e \<Rightarrow> Inl e | Inr s' \<Rightarrow> train_iteration E s')"

text \<open>
  \<^verbatim>\<open>train\<close>: the scratch list is allocated once, the iterations run, and the closing
  loop normalises (destructively) the strategy sums of the nodes not flagged terminal.
\<close>

definition train :: "hex_rules \<Rightarrow> fsicfr \<Rightarrow> nat \<Rightarrow> py_error + fsicfr" where
  "train E self num_of_iterations =
     (case train_iterations E num_of_iterations (self, replicate (cfr_num_actions self) 0) of
        Inl e \<Rightarrow> Inl e
      | Inr (self', regret) \<Rightarrow>
          Inr (fold (\<lambda>i self. if \<not> is_terminal (nodes self ! i)
                              then update_node i (\<lambda>n. snd (getAverageStrategy n)) self
                              else self)
                    [0..<length (nodes self')] self'))"

text \<open>
  A well-formed solver object: every node is well formed and has the solver's number of
  actions, and the dictionary points into the arena. The model reads lists by position;
  on a well-formed object every position the loops of \<^verbatim>\<open>train\<close> read is in range, as it is
  in the source, where the arrays of a node are created with one entry per cell and are
  never resized. The statements about the training loop are about well-formed objects and
  a scratch list of \<^verbatim>\<open>num_actions\<close> entries.
\<close>

definition cfr_wf :: "fsicfr \<Rightarrow> bool" where
  "cfr_wf self \<longleftrightarrow>
     (\<forall>n \<in> set (nodes self). node_wf n \<and> num_actions n = cfr_num_actions self) \<and>
     (\<forall>k c. nodes_dict self k = Some c \<longrightarrow> c < length (nodes self))"

text \<open>
  Which fields two states of one node share: the fields fixed at construction, the
  learned fields, the reach accumulators, and the strategy arrays.
\<close>

definition static_eq :: "node \<Rightarrow> node \<Rightarrow> bool" where
  "static_eq n m \<longleftrightarrow>
     player m = player n \<and> num_actions m = num_actions n \<and>
     move_history m = move_history n \<and> board m = board n \<and> h m = h n \<and>
     infoSet m = infoSet n \<and> pos_actions m = pos_actions n \<and>
     is_terminal m = is_terminal n"

definition learn_eq :: "node \<Rightarrow> node \<Rightarrow> bool" where
  "learn_eq n m \<longleftrightarrow> regretSum m = regretSum n \<and> T m = T n \<and> u m = u n"

definition reach_eq :: "node \<Rightarrow> node \<Rightarrow> bool" where
  "reach_eq n m \<longleftrightarrow> visits m = visits n \<and> pSum1 m = pSum1 n \<and> pSum2 m = pSum2 n"

definition strat_eq :: "node \<Rightarrow> node \<Rightarrow> bool" where
  "strat_eq n m \<longleftrightarrow> strategy m = strategy n \<and> strategySum m = strategySum n"

text \<open>Two states of the solver object that share everything but the arena's contents.\<close>

definition cfr_static_eq :: "fsicfr \<Rightarrow> fsicfr \<Rightarrow> bool" where
  "cfr_static_eq s s' \<longleftrightarrow>
     num_rows s' = num_rows s \<and> num_cols s' = num_cols s \<and>
     cfr_num_actions s' = cfr_num_actions s \<and> nodes_dict s' = nodes_dict s \<and>
     length (nodes s') = length (nodes s)"

text \<open>Only node \<^verbatim>\<open>i\<close> of the arena may differ, and only in its mutable fields.\<close>

definition only_node :: "nat \<Rightarrow> fsicfr \<Rightarrow> fsicfr \<Rightarrow> bool" where
  "only_node i s s' \<longleftrightarrow>
     cfr_static_eq s s' \<and> (\<forall>k. k \<noteq> i \<longrightarrow> nodes s' ! k = nodes s ! k) \<and>
     static_eq (nodes s ! i) (nodes s' ! i)"

section \<open>The graph builder\<close>

text \<open>
  \<^verbatim>\<open>game.step(player, a)\<close> answers with a result: \<^verbatim>\<open>'='\<close> (the game goes on),
  \<^verbatim>\<open>'f'\<close> (the cell holds a hidden stone of the opponent, which is now revealed to the
  player) or the player who has won.
\<close>

datatype step_result = Ongoing | Failed | Won player

text \<open>
  The class \<^verbatim>\<open>DarkHex\<close> is a parameter too: \<^verbatim>\<open>'g\<close> is the state of the game object,
  \<^verbatim>\<open>step\<close> and \<^verbatim>\<open>rewind\<close> return the mutated object, and \<^verbatim>\<open>new_game dims\<close> is
  \<^verbatim>\<open>DarkHex([rows, cols], False)\<close>.
\<close>

record 'g darkhex =
  new_game :: "nat \<times> nat \<Rightarrow> 'g"
  turn_info :: "'g \<Rightarrow> player"
  BOARDS :: "'g \<Rightarrow> player \<Rightarrow> cell list"
  game_move_history :: "'g \<Rightarrow> player \<Rightarrow> nat list"
  totalHidden_for_player :: "'g \<Rightarrow> player \<Rightarrow> int"
  valid_moves_colors :: "'g \<Rightarrow> player \<Rightarrow> nat list"
  step :: "'g \<Rightarrow> player \<Rightarrow> nat \<Rightarrow> 'g \<times> step_result"
  rewind :: "'g \<Rightarrow> bool \<Rightarrow> 'g"

text \<open>
  \<^verbatim>\<open>__is_board_legal\<close>; the board the \<^verbatim>\<open>Hex\<close> object counts empty cells on is the
  board it was given.
\<close>

definition is_board_legal ::
    "hex_rules \<Rightarrow> nat \<times> nat \<Rightarrow> cell list \<Rightarrow> player \<Rightarrow> player \<Rightarrow> int \<Rightarrow> bool" where
  "is_board_legal E dims b rev_player player_turn hid =
     (let res = legality_status E dims b rev_player hid;
          ct = int (count_list b NEUTRAL)
      in if res = IllegalBoard \<or> legality_turn_info E dims b rev_player hid \<noteq> player_turn \<or>
            ct \<le> hid
         then False else True)"

text \<open>
  The three containers \<^verbatim>\<open>__topSort_play\<close> fills: the stack of finished nodes, the
  set of full-board keys already visited, and the dictionary of nodes by information set.
\<close>

record build =
  stack :: "node list"
  visited :: "cell list set"
  builder_dict :: "infoset \<Rightarrow> node option"

text \<open>The last lines of \<^verbatim>\<open>__topSort_play\<close>: store and push the node unless its key is taken.\<close>

definition store_node :: "node \<Rightarrow> build \<Rightarrow> build" where
  "store_node node st =
     (if builder_dict st (infoSet node) = None
      then st\<lparr>builder_dict := (builder_dict st)(infoSet node \<mapsto> node), stack := stack st @ [node]\<rparr>
      else st)"

text \<open>
  \<^verbatim>\<open>__topSort_play\<close>, with the loop over the valid moves as a second function. The
  recursion of the source ends when the game does; the model counts the depth down and
  answers \<^verbatim>\<open>None\<close> when the count runs out.
\<close>

fun topSort_play ::
    "nat \<Rightarrow> 'g darkhex \<Rightarrow> hex_rules \<Rightarrow> nat \<times> nat \<Rightarrow> 'g \<Rightarrow> step_result \<Rightarrow> build \<Rightarrow> ('g \<times> build) option"
and topSort_moves ::
    "nat \<Rightarrow> 'g darkhex \<Rightarrow> hex_rules \<Rightarrow> nat \<times> nat \<Rightarrow> player \<Rightarrow> nat list \<Rightarrow> 'g \<Rightarrow> build \<Rightarrow> ('g \<times> build) option"
where
  "topSort_play 0 D E dims game res st = None"
| "topSort_play (Suc fuel) D E dims game res st =
     (let player0 = turn_info D game;
          ext_infoSet = BOARDS D game C_PLAYER1 @ BOARDS D game C_PLAYER2;
          player = (case res of Won w \<Rightarrow> w | _ \<Rightarrow> player0);
          rev_player = reverse_player player;
          new_h = totalHidden_for_player D game player;
          node = (Node_init (BOARDS D game player) (game_move_history D game player) player new_h)
                   \<lparr>is_terminal := (res \<noteq> Failed \<and> res \<noteq> Ongoing)\<rparr>;
          pruned =
            (if res = Failed
             then \<not> is_board_legal E dims (BOARDS D game player) rev_player player new_h
             else \<not> is_board_legal E dims (BOARDS D game player) rev_player player new_h \<and>
                  \<not> is_board_legal E dims (BOARDS D game rev_player) player rev_player
                       (totalHidden_for_player D game rev_player))
      in if pruned then Some (game, st)
         else if ext_infoSet \<in> visited st then Some (game, st)
         else
           let st1 = st\<lparr>visited := insert ext_infoSet (visited st)\<rparr>
           in if is_terminal node then Some (game, store_node node st1)
              else (case topSort_moves fuel D E dims player (valid_moves_colors D game player) game st1 of
                      None \<Rightarrow> None
                    | Some (game', st') \<Rightarrow> Some (game', store_node node st')))"
| "topSort_moves fuel D E dims p [] game st = Some (game, st)"
| "topSort_moves fuel D E dims p (a # as) game st =
     (case step D game p a of
        (game1, res) \<Rightarrow>
          (case topSort_play fuel D E dims game1 res st of
             None \<Rightarrow> None
           | Some (game2, st2) \<Rightarrow>
               topSort_moves fuel D E dims p as (rewind D game2 (res = Failed)) st2))"

text \<open>\<^verbatim>\<open>__init_board_topSorted\<close>: the reversed stack and the dictionary.\<close>

definition init_board_topSorted ::
    "nat \<Rightarrow> 'g darkhex \<Rightarrow> hex_rules \<Rightarrow> nat \<times> nat \<Rightarrow> (node list \<times> (infoset \<Rightarrow> node option)) option" where
  "init_board_topSorted fuel D E dims =
     (case topSort_play fuel D E dims (new_game D dims) Ongoing
             \<lparr>stack = [], visited = {}, builder_dict = Map.empty\<rparr> of
        None \<Rightarrow> None
      | Some (game, st) \<Rightarrow> Some (rev (stack st), builder_dict st))"

text \<open>
  \<^verbatim>\<open>FSICFR.__init__\<close>. The dictionary of the source holds the node objects of the
  list; the solver object of the model holds, for a key of that dictionary, the position
  in the list of the node with this information set.
\<close>

definition FSICFR_init :: "nat \<Rightarrow> 'g darkhex \<Rightarrow> hex_rules \<Rightarrow> nat \<Rightarrow> nat \<Rightarrow> fsicfr option" where
  "FSICFR_init fuel D E rows cols =
     (case init_board_topSorted fuel D E (rows, cols) of
        None \<Rightarrow> None
      | Some (ns, d) \<Rightarrow>
          Some \<lparr> num_rows = rows, num_cols = cols, cfr_num_actions = cols * rows, nodes = ns,
                 nodes_dict = (\<lambda>k. case d k of
                                      None \<Rightarrow> None
                                    | Some n \<Rightarrow> map_of (zip (map infoSet ns) [0..<length ns]) k) \<rparr>)"

text \<open>
  What the containers of the builder hold at every moment: the nodes of the stack are as
  \<^verbatim>\<open>Node.__init__\<close> made them (but for the terminal flag), no two of them have the same
  information set, and the dictionary holds exactly the nodes of the stack, by
  information set.
\<close>

definition built_node :: "node \<Rightarrow> bool" where
  "built_node n \<longleftrightarrow>
     n = (Node_init (board n) (move_history n) (player n) (h n))\<lparr>is_terminal := is_terminal n\<rparr>"

definition build_ok :: "build \<Rightarrow> bool" where
  "build_ok st \<longleftrightarrow>
     (\<forall>n \<in> set (stack st). built_node n) \<and>
     distinct (map infoSet (stack st)) \<and>
     (\<forall>k n. builder_dict st k = Some n \<longleftrightarrow> n \<in> set (stack st) \<and> infoSet n = k)"

text \<open>
  What one call of \<^verbatim>\<open>__topSort_play\<close> on the game object \<^verbatim>\<open>game\<close> with the result
  \<^verbatim>\<open>res\<close> computes before it recurses: the player the node is for, the node, and whether
  the state passes the gate. The state passes when the legality check accepts the board
  of the node's player, or, if the call does not follow a failed move, when it accepts
  the board of the other player of the same game object (the check one step ahead).
\<close>

definition call_player :: "'g darkhex \<Rightarrow> 'g \<Rightarrow> step_result \<Rightarrow> player" where
  "call_player D game res = (case res of Won w \<Rightarrow> w | _ \<Rightarrow> turn_info D game)"

definition call_node :: "'g darkhex \<Rightarrow> 'g \<Rightarrow> step_result \<Rightarrow> node" where
  "call_node D game res =
     (let player = call_player D game res
      in (Node_init (BOARDS D game player) (game_move_history D game player) player
            (totalHidden_for_player D game player))
           \<lparr>is_terminal := (res \<noteq> Failed \<and> res \<noteq> Ongoing)\<rparr>)"

definition call_passes :: "'g darkhex \<Rightarrow> hex_rules \<Rightarrow> nat \<times> nat \<Rightarrow> 'g \<Rightarrow> step_result \<Rightarrow> bool" where
  "call_passes D E dims game res =
     (let player = call_player D game res;
          rev_player = reverse_player player
      in is_board_legal E dims (BOARDS D game player) rev_player player
           (totalHidden_for_player D game player) \<or>
         (res \<noteq> Failed \<and>
          is_board_legal E dims (BOARDS D game rev_player) player rev_player
            (totalHidden_for_player D game rev_player)))"

text \<open>
  The calls of \<^verbatim>\<open>__topSort_play\<close> that one call gives rise to, itself first, in the
  order of the run: each with the game object and the result it was called on and the
  containers as they were at that moment. The function follows the recursion of
  \<^verbatim>\<open>topSort_play\<close> and \<^verbatim>\<open>topSort_moves\<close>.
\<close>

fun play_calls ::
    "nat \<Rightarrow> 'g darkhex \<Rightarrow> hex_rules \<Rightarrow> nat \<times> nat \<Rightarrow> 'g \<Rightarrow> step_result \<Rightarrow> build \<Rightarrow>
     ('g \<times> step_result \<times> build) list"
and moves_calls ::
    "nat \<Rightarrow> 'g darkhex \<Rightarrow> hex_rules \<Rightarrow> nat \<times> nat \<Rightarrow> player \<Rightarrow> nat list \<Rightarrow> 'g \<Rightarrow> build \<Rightarrow>
     ('g \<times> step_result \<times> build) list"
where
  "play_calls 0 D E dims game res st = []"
| "play_calls (Suc fuel) D E dims game res st =
     (game, res, st) #
     (let ext_infoSet = BOARDS D game C_PLAYER1 @ BOARDS D game C_PLAYER2
      in if \<not> call_passes D E dims game res \<or> ext_infoSet \<in> visited st \<or>
            is_terminal (call_node D game res)
         then []
         else moves_calls fuel D E dims (call_player D game res)
                (valid_moves_colors D game (call_player D game res)) game
                (st\<lparr>visited := insert ext_infoSet (visited st)\<rparr>))"
| "moves_calls fuel D E dims p [] game st = []"
| "moves_calls fuel D E dims p (a # as) game st =
     (case step D game p a of
        (game1, res) \<Rightarrow>
          play_calls fuel D E dims game1 res st @
          (case topSort_play fuel D E dims game1 res st of
             None \<Rightarrow> []
           | Some (game2, st2) \<Rightarrow>
               moves_calls fuel D E dims p as (rewind D game2 (res = Failed)) st2))"

text \<open>
  The node \<^verbatim>\<open>n\<close> with the key \<^verbatim>\<open>k\<close> was created in the call \<^verbatim>\<open>c\<close>: it is the node
  that call made, the state of the call passed the gate, and the full-board key of the
  state had not been visited.
\<close>

definition created_in ::
    "'g darkhex \<Rightarrow> hex_rules \<Rightarrow> nat \<times> nat \<Rightarrow> 'g \<times> step_result \<times> build \<Rightarrow> infoset \<Rightarrow> node \<Rightarrow> bool" where
  "created_in D E dims c k n =
     (case c of
        (game, res, st) \<Rightarrow>
          n = call_node D game res \<and> k = infoSet n \<and> call_passes D E dims game res \<and>
          BOARDS D game C_PLAYER1 @ BOARDS D game C_PLAYER2 \<notin> visited st)"

text \<open>
  The key \<^verbatim>\<open>k\<close> and the node \<^verbatim>\<open>n\<close> come from a call the construction makes on the
  board of dimensions \<^verbatim>\<open>dims\<close>.
\<close>

definition key_created ::
    "nat \<Rightarrow> 'g darkhex \<Rightarrow> hex_rules \<Rightarrow> nat \<times> nat \<Rightarrow> infoset \<Rightarrow> node \<Rightarrow> bool" where
  "key_created fuel D E dims k n =
     list_ex (\<lambda>c. created_in D E dims c k n)
       (play_calls fuel D E dims (new_game D dims) Ongoing
          \<lparr>stack = [], visited = {}, builder_dict = Map.empty\<rparr>)"

text \<open>
  What a run of the builder from the containers \<^verbatim>\<open>st\<close> to the containers \<^verbatim>\<open>st'\<close>
  with the calls \<^verbatim>\<open>cs\<close> adds to the dictionary: nodes created in these calls.
\<close>

definition dict_grows ::
    "'g darkhex \<Rightarrow> hex_rules \<Rightarrow> nat \<times> nat \<Rightarrow> ('g \<times> step_result \<times> build) list \<Rightarrow> build \<Rightarrow> build \<Rightarrow> bool" where
  "dict_grows D E dims cs st st' \<longleftrightarrow>
     (\<forall>k n. builder_dict st' k = Some n \<longrightarrow>
        builder_dict st k = Some n \<or> list_ex (\<lambda>c. created_in D E dims c k n) cs)"

text \<open>
  The condition under which no regret update divides by zero: visit counts and weights
  are non-negative, and a node the rule engine calls undecided (the only kind whose
  regrets are updated) has a positive \<^verbatim>\<open>T + visits\<close>.
\<close>

definition denominators_ok :: "hex_rules \<Rightarrow> fsicfr \<Rightarrow> bool" where
  "denominators_ok E s \<longleftrightarrow>
     (\<forall>n \<in> set (nodes s).
        0 \<le> visits n \<and> 0 \<le> T n \<and>
        (game_status E (num_rows s, num_cols s) (board n) = Undecided \<longrightarrow> 0 < T n + visits n))"

text \<open>
  What the accumulation loop of node \<^verbatim>\<open>i\<close> adds to the scratch list: the list it
  leaves when started on zeros (all zeros for a node with a decided board, which skips
  the loop).
\<close>

definition node_contributions :: "hex_rules \<Rightarrow> nat \<Rightarrow> fsicfr \<Rightarrow> real list" where
  "node_contributions E i self =
     (case getStrategy (nodes self ! i) of
        (strat, node') \<Rightarrow>
          let self1 = self\<lparr>nodes := (nodes self)[i := node']\<rparr>
          in if game_status E (num_rows self1, num_cols self1) (board (nodes self1 ! i)) = Undecided
             then snd (fold (backward_action i strat) [0..<cfr_num_actions self1]
                         (self1, replicate (cfr_num_actions self1) 0))
             else replicate (cfr_num_actions self1) 0)"

text \<open>The contributions to action \<^verbatim>\<open>a\<close> of the nodes of a backward run, in the states the run meets them.\<close>

fun backward_contributions ::
    "hex_rules \<Rightarrow> nat list \<Rightarrow> fsicfr \<times> real list \<Rightarrow> nat \<Rightarrow> real" where
  "backward_contributions E [] p a = 0"
| "backward_contributions E (i # js) p a =
     node_contributions E i (fst p) ! a +
     (case backward_node E i p of Inl e \<Rightarrow> 0 | Inr p' \<Rightarrow> backward_contributions E js p' a)"

text \<open>The contributions to action \<^verbatim>\<open>a\<close> over the first \<^verbatim>\<open>k\<close> iterations.\<close>

fun train_contributions ::
    "hex_rules \<Rightarrow> nat \<Rightarrow> fsicfr \<times> real list \<Rightarrow> nat \<Rightarrow> real" where
  "train_contributions E 0 p a = 0"
| "train_contributions E (Suc k) p a =
     train_contributions E k p a +
     (case train_iterations E k p of
        Inl e \<Rightarrow> 0
      | Inr (s, r) \<Rightarrow>
          (case forward_pass s of
             Inl e \<Rightarrow> 0
           | Inr s1 \<Rightarrow> backward_contributions E (rev [0..<length (nodes s1)]) (s1, r) a))"




text \<open>
  The dictionary is keyed by the information sets of the nodes, and the information set
  of a node is its player, its board and its hidden count, as \<^verbatim>\<open>Node.__init__\<close> sets it.
\<close>

definition dict_keyed :: "fsicfr \<Rightarrow> bool" where
  "dict_keyed self \<longleftrightarrow>
     (\<forall>k c. nodes_dict self k = Some c \<longrightarrow> infoSet (nodes self ! c) = k) \<and>
     (\<forall>n \<in> set (nodes self). infoSet n = get_infoset (player n) (board n) (h n))"

section \<open>Concrete instances: boards of one row or one column\<close>

text \<open>
  Modelled from the spec: the rule engine (class \<^verbatim>\<open>Hex\<close>) is missing from the sources.
  The spec's statuses are player-1-win, player-2-win, in-progress and illegal. On a board
  of one row or one column the connection rule of Hex needs no search: player 1 joins
  top and bottom, so one stone of player 1 wins on a board of one row and a full column
  of player 1 wins on a board of one column; for player 2, who joins left and right, it
  is the other way round. In legality mode the hidden stones of \<^verbatim>\<open>h_player\<close> are
  counted with that player's stones, a board is illegal when the counts cannot come from
  alternating play with player 1 first, and the player to move is player 1 when the
  counts are equal.
\<close>

definition line_winner :: "nat \<times> nat \<Rightarrow> cell list \<Rightarrow> status" where
  "line_winner dims b =
     (if (fst dims = 1 \<and> Stone C_PLAYER1 \<in> set b) \<or>
         (snd dims = 1 \<and> b \<noteq> [] \<and> list_all (\<lambda>c. c = Stone C_PLAYER1) b)
      then Winner C_PLAYER1
      else if (snd dims = 1 \<and> Stone C_PLAYER2 \<in> set b) \<or>
              (fst dims = 1 \<and> b \<noteq> [] \<and> list_all (\<lambda>c. c = Stone C_PLAYER2) b)
      then Winner C_PLAYER2
      else Undecided)"

definition stones :: "player \<Rightarrow> cell list \<Rightarrow> player \<Rightarrow> int \<Rightarrow> int" where
  "stones p b h_player k =
     int (count_list b (Stone p)) + (if h_player = p then k else 0)"

definition hex_line :: hex_rules where
  "hex_line =
     \<lparr> game_status = line_winner,
       legality_status = (\<lambda>dims b h_player k.
          if stones C_PLAYER1 b h_player k \<noteq> stones C_PLAYER2 b h_player k \<and>
             stones C_PLAYER1 b h_player k \<noteq> stones C_PLAYER2 b h_player k + 1
          then IllegalBoard
          else line_winner dims b),
       legality_turn_info = (\<lambda>dims b h_player k.
          if stones C_PLAYER1 b h_player k = stones C_PLAYER2 b h_player k
          then C_PLAYER1 else C_PLAYER2) \<rparr>"

text \<open>
  Modelled from the spec: the class \<^verbatim>\<open>DarkHex\<close> is missing from the sources. The game
  object holds the true board, each player's own view and the player to move, and keeps
  the earlier positions for \<^verbatim>\<open>rewind\<close>. A placement on a cell that holds a hidden stone
  of the opponent fails: the stone is revealed in the player's view and the player moves
  again. Any other placement puts the stone on the true board and in the player's view
  and passes the turn. The hidden count of a player is the number of the opponent's
  stones missing from the player's view; the valid moves of a player are the empty cells
  of the player's view.
\<close>

record position =
  board_size :: "nat \<times> nat"
  BOARD :: "cell list"
  view1 :: "cell list"
  view2 :: "cell list"
  to_move :: player

definition view :: "position \<Rightarrow> player \<Rightarrow> cell list" where
  "view pos p = (if p = C_PLAYER1 then view1 pos else view2 pos)"

definition set_view :: "position \<Rightarrow> player \<Rightarrow> cell list \<Rightarrow> position" where
  "set_view pos p b = (if p = C_PLAYER1 then pos\<lparr>view1 := b\<rparr> else pos\<lparr>view2 := b\<rparr>)"

definition dark_step :: "position list \<Rightarrow> player \<Rightarrow> nat \<Rightarrow> position list \<times> step_result" where
  "dark_step g p a =
     (let pos = hd g
      in if BOARD pos ! a \<noteq> NEUTRAL
         then (set_view pos p ((view pos p)[a := BOARD pos ! a]) # g, Failed)
         else
           let pos1 = (set_view pos p ((view pos p)[a := Stone p]))
                        \<lparr>BOARD := (BOARD pos)[a := Stone p], to_move := reverse_player p\<rparr>
           in (pos1 # g,
               case line_winner (board_size pos1) (BOARD pos1) of
                 Winner w \<Rightarrow> Won w | _ \<Rightarrow> Ongoing))"

definition dark_line :: "position list darkhex" where
  "dark_line =
     \<lparr> new_game = (\<lambda>dims.
          [\<lparr> board_size = dims,
              BOARD = replicate (fst dims * snd dims) NEUTRAL,
              view1 = replicate (fst dims * snd dims) NEUTRAL,
              view2 = replicate (fst dims * snd dims) NEUTRAL,
              to_move = C_PLAYER1 \<rparr>]),
       turn_info = (\<lambda>g. to_move (hd g)),
       BOARDS = (\<lambda>g p. view (hd g) p),
       game_move_history = (\<lambda>g p. []),
       totalHidden_for_player = (\<lambda>g p.
          int (length (filter (\<lambda>i. BOARD (hd g) ! i = Stone (reverse_player p) \<and>
                                      view (hd g) p ! i = NEUTRAL)
                              [0..<length (BOARD (hd g))]))),
       valid_moves_colors = (\<lambda>g p.
          filter (\<lambda>i. view (hd g) p ! i = NEUTRAL) [0..<length (view (hd g) p)]),
       step = dark_step,
       rewind = (\<lambda>g failed. tl g) \<rparr>"

text \<open>
  A solver object with two nodes on the one-cell board: the empty board, where player 1
  moves, and the board with player 1's stone, flagged terminal.
\<close>

definition cfr_1x1 :: fsicfr where
  "cfr_1x1 =
     \<lparr> num_rows = 1, num_cols = 1, cfr_num_actions = 1,
       nodes = [Node_init [NEUTRAL] [] C_PLAYER1 0,
                (Node_init [Stone C_PLAYER1] [0] C_PLAYER1 0)\<lparr>is_terminal := True\<rparr>],
       nodes_dict = (\<lambda>k. if k = (C_PLAYER1, [NEUTRAL], 0) then Some 0
                          else if k = (C_PLAYER1, [Stone C_PLAYER1], 0) then Some 1
                          else None) \<rparr>"


text \<open>What the accumulation loop of the backward pass may change: \<^verbatim>\<open>u\<close> of node \<^verbatim>\<open>i\<close> and the scratch list.\<close>

definition acc_rel :: "nat \<Rightarrow> fsicfr \<times> real list \<Rightarrow> fsicfr \<times> real list \<Rightarrow> bool" where
  "acc_rel i p q \<longleftrightarrow>
     only_node i (fst p) (fst q) \<and> length (snd q) = length (snd p) \<and>
     reach_eq (nodes (fst p) ! i) (nodes (fst q) ! i) \<and>
     strat_eq (nodes (fst p) ! i) (nodes (fst q) ! i) \<and>
     regretSum (nodes (fst q) ! i) = regretSum (nodes (fst p) ! i) \<and>
     T (nodes (fst q) ! i) = T (nodes (fst p) ! i)"

text \<open>What the regret update may change: the entries of \<^verbatim>\<open>regretSum\<close>.\<close>

definition upd_rel :: "node \<Rightarrow> node \<Rightarrow> bool" where
  "upd_rel n m \<longleftrightarrow>
     static_eq n m \<and> reach_eq n m \<and> strat_eq n m \<and> T m = T n \<and> u m = u n \<and>
     length (regretSum m) = length (regretSum n)"

text \<open>What the children loop of the forward pass may change: the reach fields of the nodes.\<close>

definition fwd_rel :: "fsicfr \<Rightarrow> fsicfr \<Rightarrow> bool" where
  "fwd_rel s s' \<longleftrightarrow>
     cfr_static_eq s s' \<and>
     (\<forall>k < length (nodes s). static_eq (nodes s ! k) (nodes s' ! k) \<and>
        learn_eq (nodes s ! k) (nodes s' ! k) \<and> strat_eq (nodes s ! k) (nodes s' ! k))"

section \<open>Regret matching and the average strategy\<close>


lemma drop_upd0: "k < length xs \<Longrightarrow> (drop k xs)[0 := v] = v # drop (Suc k) xs"
  by (simp add: Cons_nth_drop_Suc[symmetric])

lemma clip_fold:
  "k \<le> length (strategy n) \<Longrightarrow> length (regretSum n) = length (strategy n) \<Longrightarrow>
   fold (\<lambda>a (n, normalizingSum).
             let n' = n\<lparr>strategy := (strategy n)[a := max (regretSum n ! a) 0]\<rparr>
             in (n', normalizingSum + strategy n' ! a)) [0..<k] (n, s0)
   = (n\<lparr>strategy := map (\<lambda>r. max r 0) (take k (regretSum n)) @ drop k (strategy n)\<rparr>,
      s0 + sum_list (map (\<lambda>r. max r 0) (take k (regretSum n))))"
proof (induction k)
  case 0
  then show ?case by simp
next
  case (Suc k)
  then show ?case 
    by (simp add: take_Suc_conv_app_nth Let_def list_update_append nth_append drop_upd0)
qed

lemma getStrategy_clip_eq:
  "length (regretSum n) = length (strategy n) \<Longrightarrow>
   getStrategy_clip n = (n\<lparr>strategy := map (\<lambda>r. max r 0) (regretSum n)\<rparr>, sum_list (map (\<lambda>r. max r 0) (regretSum n)))"
  unfolding getStrategy_clip_def using clip_fold[of "length (strategy n)" n 0] by simp

lemma normalize_fold:
  "k \<le> length (strategy n) \<Longrightarrow> length (strategySum n) = length (strategy n) \<Longrightarrow>
   fold (\<lambda>a n.
             let n1 = (if s > 0
                       then n\<lparr>strategy := (strategy n)[a := strategy n ! a / s]\<rparr>
                       else n\<lparr>strategy := (strategy n)[a := 1 / real (length (strategy n))]\<rparr>)
             in n1\<lparr>strategySum := (strategySum n1)
                       [a := strategySum n1 ! a +
                             strategy n1 ! a * (if player n1 = C_PLAYER1 then pSum1 n1 else pSum2 n1)]\<rparr>)
          [0..<k] n
   = n\<lparr>strategy := map (\<lambda>x. if s > 0 then x / s else 1 / real (length (strategy n))) (take k (strategy n)) @ drop k (strategy n),
       strategySum := map (\<lambda>(y, x). y + (if s > 0 then x / s else 1 / real (length (strategy n))) * (if player n = C_PLAYER1 then pSum1 n else pSum2 n))
                          (zip (take k (strategySum n)) (take k (strategy n))) @ drop k (strategySum n)\<rparr>"
proof (induction k)
  case 0
  then show ?case by simp
next
  case (Suc k)
  then show ?case 
    by (cases "0 < s")
       (simp_all add: take_Suc_conv_app_nth Let_def list_update_append nth_append drop_upd0)
qed

lemma getStrategy_normalize_eq:
  "length (strategySum n) = length (strategy n) \<Longrightarrow> L = length (strategy n) \<Longrightarrow>
   getStrategy_normalize s n =
   n\<lparr>strategy := map (\<lambda>x. if s > 0 then x / s else 1 / real L) (strategy n),
       strategySum := map (\<lambda>(y, x). y + (if s > 0 then x / s else 1 / real L) * (if player n = C_PLAYER1 then pSum1 n else pSum2 n))
                          (zip (strategySum n) (strategy n))\<rparr>"
  unfolding getStrategy_normalize_def using normalize_fold[of "length (strategy n)" n s]
  by (cases "0 < s") simp_all

lemma regret_matching_length [simp]: "length (regret_matching rs) = length rs"
  by (simp add: regret_matching_def Let_def)

lemma regret_matching_nth:
  "a < length rs \<Longrightarrow> regret_matching rs ! a =
     (if 0 < sum_list (map (\<lambda>r. max r 0) rs) then max (rs ! a) 0 / sum_list (map (\<lambda>r. max r 0) rs)
      else 1 / real (length rs))"
  by (simp add: regret_matching_def Let_def)

lemma getStrategy_eq:
  assumes "node_wf n"
  shows "getStrategy n =
     (regret_matching (regretSum n),
      n\<lparr>strategy := regret_matching (regretSum n), strategySum := strategySum_step n\<rparr>)"
proof -
  define pos where "pos = map (\<lambda>r. max r 0) (regretSum n)"
  define s where "s = sum_list pos"
  define n1 where "n1 = n\<lparr>strategy := pos\<rparr>"
  have len: "length (strategy n) = num_actions n" "length (regretSum n) = num_actions n"
     "length (strategySum n) = num_actions n"
    using assms by (simp_all add: node_wf_def)
  have clip: "getStrategy_clip n = (n1, s)"
    by (simp add: getStrategy_clip_eq len n1_def s_def pos_def)
  have a: "map (\<lambda>x. if 0 < s then x / s else 1 / real (num_actions n)) pos
      = regret_matching (regretSum n)"
    by (rule nth_equalityI) (simp_all add: len regret_matching_nth pos_def s_def)
  have b: "map (\<lambda>(y, x). y + (if 0 < s then x / s else 1 / real (num_actions n)) *
                  (if player n = C_PLAYER1 then pSum1 n else pSum2 n)) (zip (strategySum n) pos)
      = strategySum_step n"
    by (rule nth_equalityI)
       (simp_all add: len regret_matching_nth strategySum_step_def reach_weight_def pos_def s_def)
  have "getStrategy_normalize s n1 =
      n1\<lparr>strategy := map (\<lambda>x. if 0 < s then x / s else 1 / real (num_actions n)) (strategy n1),
         strategySum := map (\<lambda>(y, x). y + (if 0 < s then x / s else 1 / real (num_actions n)) *
                  (if player n1 = C_PLAYER1 then pSum1 n1 else pSum2 n1)) (zip (strategySum n1) (strategy n1))\<rparr>"
    by (rule getStrategy_normalize_eq) (simp_all add: n1_def pos_def len)
  also have "\<dots> = n\<lparr>strategy := regret_matching (regretSum n), strategySum := strategySum_step n\<rparr>"
    unfolding a[symmetric] b[symmetric] by (simp add: n1_def)
  finally have norm: "getStrategy_normalize s n1 =
      n\<lparr>strategy := regret_matching (regretSum n), strategySum := strategySum_step n\<rparr>" .
  show ?thesis
    by (simp add: getStrategy_def clip norm)
qed


lemma sum_list_clip_nonneg: "0 \<le> sum_list (map (\<lambda>r. max r 0) (rs :: real list))"
  by (rule sum_list_nonneg) auto

lemma sum_list_clip_zero_set:
  "\<forall>r \<in> set rs. r \<le> 0 \<Longrightarrow> sum_list (map (\<lambda>r. max r 0) (rs :: real list)) = 0"
  by (induction rs) (auto simp: max_def)

lemma sum_list_clip_zero:
  "\<forall>a < length rs. rs ! a \<le> 0 \<Longrightarrow> sum_list (map (\<lambda>r. max r 0) (rs :: real list)) = 0"
  by (rule sum_list_clip_zero_set) (auto simp: in_set_conv_nth)

lemma sum_list_divide_const:
  "sum_list (map (\<lambda>x. f x / c) xs) = sum_list (map f xs) / (c :: real)"
  by (induction xs) (simp_all add: add_divide_distrib)

lemma regret_matching_nonneg: "a < length rs \<Longrightarrow> 0 \<le> regret_matching rs ! a"
  using sum_list_clip_nonneg[of rs] by (simp add: regret_matching_nth)

lemma regret_matching_sum: "0 < length rs \<Longrightarrow> sum_list (regret_matching rs) = 1"
  by (simp add: regret_matching_def Let_def o_def sum_list_divide_const sum_list_replicate)

lemma regret_matching_uniform:
  "\<forall>a < length rs. rs ! a \<le> 0 \<Longrightarrow> a < length rs \<Longrightarrow>
   regret_matching rs ! a = 1 / real (length rs)"
  by (simp add: regret_matching_nth sum_list_clip_zero)

lemma Node_init_wf: "node_wf (Node_init b mh p hid)"
  by (simp add: node_wf_def Node_init_def)

text \<open>
  Claim C5. After any call of \<^verbatim>\<open>getStrategy\<close> on a node (with at least one action),
  the returned \<^verbatim>\<open>strategy\<close> is a probability vector of length \<^verbatim>\<open>num_actions\<close>:
  every entry is non-negative and the entries sum to 1; and when every
  \<^verbatim>\<open>regretSum[a]\<close> is at most 0, the returned strategy is \<^verbatim>\<open>1/num_actions\<close> at
  every action index, occupied cells included (the index ranges over the whole board).
\<close>

theorem getStrategy_probability_vector:
  assumes "node_wf n" and "0 < num_actions n"
  shows "length (fst (getStrategy n)) = num_actions n \<and>
         strategy (snd (getStrategy n)) = fst (getStrategy n) \<and>
         (\<forall>a < num_actions n. 0 \<le> fst (getStrategy n) ! a) \<and>
         sum_list (fst (getStrategy n)) = 1 \<and>
         ((\<forall>a < num_actions n. regretSum n ! a \<le> 0) \<longrightarrow>
          (\<forall>a < num_actions n. fst (getStrategy n) ! a = 1 / real (num_actions n)))"
proof -
  have len: "length (regretSum n) = num_actions n"
    using assms(1) by (simp add: node_wf_def)
  show ?thesis
    using assms(2)
    by (simp add: getStrategy_eq[OF assms(1)] len regret_matching_nonneg regret_matching_sum
        regret_matching_uniform)
qed

theorem getStrategy_probability_vector_witness:
  "node_wf (Node_init [NEUTRAL, Stone C_PLAYER1] [1] C_PLAYER2 0) \<and>
   sum_list (fst (getStrategy (Node_init [NEUTRAL, Stone C_PLAYER1] [1] C_PLAYER2 0))) = 1 \<and>
   fst (getStrategy (Node_init [NEUTRAL, Stone C_PLAYER1] [1] C_PLAYER2 0)) ! 1 = 1 / 2"
proof -
  let ?n = "Node_init [NEUTRAL, Stone C_PLAYER1] [1] C_PLAYER2 0"
  have wf: "node_wf ?n" by (rule Node_init_wf)
  have na: "num_actions ?n = 2" by (simp add: Node_init_def)
  have rs: "\<forall>a < num_actions ?n. regretSum ?n ! a \<le> 0"
    by (simp add: Node_init_def nth_Cons' )
  have "sum_list (fst (getStrategy ?n)) = 1 \<and> 
        (\<forall>a < num_actions ?n. fst (getStrategy ?n) ! a = 1 / real (num_actions ?n))"
    using getStrategy_probability_vector[OF wf] rs na by simp
  then show ?thesis using wf na by simp
qed

lemma total_fold:
  "k \<le> length xs \<Longrightarrow>
   fold (\<lambda>a normalizingSum. normalizingSum + xs ! a) [0..<k] (s0::real) = s0 + sum_list (take k xs)"
  by (induction k) (simp_all add: take_Suc_conv_app_nth)

lemma getAverageStrategy_total_eq: "getAverageStrategy_total n = sum_list (strategySum n)"
  unfolding getAverageStrategy_total_def using total_fold[of "length (strategySum n)" "strategySum n" 0]
  by simp

lemma average_fold:
  "k \<le> length (strategySum n) \<Longrightarrow>
   fold (\<lambda>a n.
             if s > 0
             then n\<lparr>strategySum := (strategySum n)[a := strategySum n ! a / s]\<rparr>
             else n\<lparr>strategySum := (strategySum n)[a := 1 / real (length (strategySum n))]\<rparr>)
          [0..<k] n
   = n\<lparr>strategySum := map (\<lambda>x. if s > 0 then x / s else 1 / real (length (strategySum n)))
                            (take k (strategySum n)) @ drop k (strategySum n)\<rparr>"
proof (induction k)
  case 0
  then show ?case by simp
next
  case (Suc k)
  then show ?case
    by (cases "0 < s")
       (simp_all add: take_Suc_conv_app_nth list_update_append nth_append drop_upd0)
qed

lemma getAverageStrategy_eq:
  "getAverageStrategy n =
     (average_strategy (strategySum n), n\<lparr>strategySum := average_strategy (strategySum n)\<rparr>)"
  unfolding getAverageStrategy_def getAverageStrategy_normalize_def getAverageStrategy_total_eq
    average_strategy_def
  using average_fold[of "length (strategySum n)" n "sum_list (strategySum n)"]
  by (cases "0 < sum_list (strategySum n)") (simp_all add: Let_def)

lemma average_strategy_sum: "0 < length xs \<Longrightarrow> sum_list (average_strategy xs) = 1"
  by (cases "0 < sum_list xs")
     (simp_all add: average_strategy_def sum_list_divide_const[where f="\<lambda>x. x", simplified] sum_list_triv)

text \<open>
  Claim C8. \<^verbatim>\<open>getAverageStrategy\<close> overwrites \<^verbatim>\<open>strategySum\<close> in place: each entry
  becomes the old entry divided by the old total when that total is positive, and
  \<^verbatim>\<open>1/num_actions\<close> otherwise; the returned vector is the stored one, it sums to 1,
  and it is non-negative whenever the old entries were.
\<close>

theorem getAverageStrategy_normalizes:
  assumes "node_wf n" and "0 < num_actions n"
  shows "strategySum (snd (getAverageStrategy n)) = fst (getAverageStrategy n) \<and>
         length (fst (getAverageStrategy n)) = num_actions n \<and>
         (\<forall>a < num_actions n.
            fst (getAverageStrategy n) ! a =
              (if 0 < sum_list (strategySum n) then strategySum n ! a / sum_list (strategySum n)
               else 1 / real (num_actions n))) \<and>
         sum_list (fst (getAverageStrategy n)) = 1 \<and>
         ((\<forall>a < num_actions n. 0 \<le> strategySum n ! a) \<longrightarrow>
          (\<forall>a < num_actions n. 0 \<le> fst (getAverageStrategy n) ! a))"
proof -
  have len: "length (strategySum n) = num_actions n"
    using assms(1) by (simp add: node_wf_def)
  have nn: "0 \<le> sum_list (strategySum n)" if "\<forall>a < num_actions n. 0 \<le> strategySum n ! a"
    by (rule sum_list_nonneg) (use that len in \<open>auto simp: in_set_conv_nth\<close>)
  have one: "sum_list (average_strategy (strategySum n)) = 1"
    using assms(2) by (simp add: average_strategy_sum len)
  have entries: "\<forall>a < num_actions n.
            average_strategy (strategySum n) ! a =
              (if 0 < sum_list (strategySum n) then strategySum n ! a / sum_list (strategySum n)
               else 1 / real (num_actions n))"
    by (simp add: average_strategy_def len)
  have nonneg: "(\<forall>a < num_actions n. 0 \<le> strategySum n ! a) \<longrightarrow>
          (\<forall>a < num_actions n. 0 \<le> average_strategy (strategySum n) ! a)"
    using nn by (simp add: entries)
  have length_avg: "length (average_strategy (strategySum n)) = num_actions n"
    by (simp add: average_strategy_def len)
  show ?thesis
    unfolding getAverageStrategy_eq fst_conv snd_conv
    using one entries nonneg length_avg by simp
qed


theorem getAverageStrategy_normalizes_witness:
  "sum_list (fst (getAverageStrategy ((Node_init [NEUTRAL, Stone C_PLAYER1] [1] C_PLAYER2 0)\<lparr>strategySum := [3, 1]\<rparr>))) = 1 \<and>
   fst (getAverageStrategy ((Node_init [NEUTRAL, Stone C_PLAYER1] [1] C_PLAYER2 0)\<lparr>strategySum := [3, 1]\<rparr>)) ! 0 = 3 / 4 \<and>
   0 \<le> fst (getAverageStrategy ((Node_init [NEUTRAL, Stone C_PLAYER1] [1] C_PLAYER2 0)\<lparr>strategySum := [3, 1]\<rparr>)) ! 1"
proof -
  let ?n = "(Node_init [NEUTRAL, Stone C_PLAYER1] [1] C_PLAYER2 0)\<lparr>strategySum := [3, 1]\<rparr>"
  have wf: "node_wf ?n" by (simp add: node_wf_def Node_init_def)
  have na: "num_actions ?n = 2" by (simp add: Node_init_def)
  have ss: "strategySum ?n = [3, 1]" by simp
  have nn: "\<forall>a < num_actions ?n. 0 \<le> strategySum ?n ! a"
    by (simp add: Node_init_def nth_Cons')
  have "sum_list (fst (getAverageStrategy ?n)) = 1 \<and> 
        (\<forall>a < num_actions ?n. fst (getAverageStrategy ?n) ! a =
              (if 0 < sum_list (strategySum ?n) then strategySum ?n ! a / sum_list (strategySum ?n)
               else 1 / real (num_actions ?n))) \<and>
        (\<forall>a < num_actions ?n. 0 \<le> fst (getAverageStrategy ?n) ! a)"
    using getAverageStrategy_normalizes[OF wf] nn na by simp
  then show ?thesis unfolding na ss by simp
qed

section \<open>The graph builder: what the dictionary holds and how the list is ordered\<close>

text \<open>
  \<^verbatim>\<open>topSort_play\<close> and the list of its calls, written with the player, the node and
  the gate of a call.
\<close>

lemma topSort_play_Suc:
  "topSort_play (Suc fuel) D E dims game res st =
     (if \<not> call_passes D E dims game res then Some (game, st)
      else if BOARDS D game C_PLAYER1 @ BOARDS D game C_PLAYER2 \<in> visited st then Some (game, st)
      else if is_terminal (call_node D game res)
      then Some (game, store_node (call_node D game res)
                   (st\<lparr>visited := insert (BOARDS D game C_PLAYER1 @ BOARDS D game C_PLAYER2) (visited st)\<rparr>))
      else (case topSort_moves fuel D E dims (call_player D game res)
                   (valid_moves_colors D game (call_player D game res)) game
                   (st\<lparr>visited := insert (BOARDS D game C_PLAYER1 @ BOARDS D game C_PLAYER2) (visited st)\<rparr>) of
              None \<Rightarrow> None
            | Some (game', st') \<Rightarrow> Some (game', store_node (call_node D game res) st')))"
  unfolding call_passes_def call_node_def call_player_def topSort_play.simps Let_def
  by (cases res) simp_all

lemma play_calls_Suc:
  "play_calls (Suc fuel) D E dims game res st =
     (game, res, st) #
     (if \<not> call_passes D E dims game res then []
      else if BOARDS D game C_PLAYER1 @ BOARDS D game C_PLAYER2 \<in> visited st then []
      else if is_terminal (call_node D game res) then []
      else moves_calls fuel D E dims (call_player D game res)
                (valid_moves_colors D game (call_player D game res)) game
                (st\<lparr>visited := insert (BOARDS D game C_PLAYER1 @ BOARDS D game C_PLAYER2) (visited st)\<rparr>))"
  by (simp add: Let_def)

lemma dict_grows_refl: "dict_grows D E dims cs st st"
  unfolding dict_grows_def by blast

lemma dict_grows_mono:
  assumes "dict_grows D E dims cs st st'" and "set cs \<subseteq> set cs'"
  shows "dict_grows D E dims cs' st st'"
  using assms unfolding dict_grows_def list_ex_iff by blast

lemma dict_grows_trans:
  assumes "dict_grows D E dims cs st st1" and "dict_grows D E dims cs' st1 st2"
  shows "dict_grows D E dims (cs @ cs') st st2"
  using assms unfolding dict_grows_def list_ex_iff by (metis Un_iff set_append)

lemma dict_grows_visited:
  assumes "dict_grows D E dims cs (st\<lparr>visited := V\<rparr>) st'"
  shows "dict_grows D E dims cs st st'"
  using assms unfolding dict_grows_def by simp

lemma store_node_dict:
  assumes "builder_dict (store_node node st) k = Some n"
  shows "builder_dict st k = Some n \<or> (k = infoSet node \<and> n = node)"
  using assms by (cases "k = infoSet node") (auto simp: store_node_def split: if_splits)

lemma dict_grows_store:
  assumes "dict_grows D E dims cs st st'"
    and "created_in D E dims c (infoSet node) node" and "c \<in> set cs"
  shows "dict_grows D E dims cs st (store_node node st')"
  unfolding dict_grows_def
proof (intro allI impI)
  fix k n assume "builder_dict (store_node node st') k = Some n"
  from store_node_dict[OF this]
  show "builder_dict st k = Some n \<or> list_ex (\<lambda>c. created_in D E dims c k n) cs"
  proof
    assume "builder_dict st' k = Some n"
    then show ?thesis using assms(1) unfolding dict_grows_def by blast
  next
    assume "k = infoSet node \<and> n = node"
    then show ?thesis using assms(2,3) unfolding list_ex_iff by blast
  qed
qed

lemma topSort_moves_grows:
  assumes play: "\<And>game res st g' st'.
             topSort_play fuel D E dims game res st = Some (g', st') \<Longrightarrow>
             dict_grows D E dims (play_calls fuel D E dims game res st) st st'"
    and "topSort_moves fuel D E dims p as game st = Some (g', st')"
  shows "dict_grows D E dims (moves_calls fuel D E dims p as game st) st st'"
  using assms(2)
proof (induction as arbitrary: game st)
  case Nil
  then show ?case by (simp add: dict_grows_refl)
next
  case (Cons a as)
  obtain game1 res where st: "step D game p a = (game1, res)" by (cases "step D game p a")
  from Cons.prems st obtain game2 st2 where
    a: "topSort_play fuel D E dims game1 res st = Some (game2, st2)" and
    b: "topSort_moves fuel D E dims p as (rewind D game2 (res = Failed)) st2 = Some (g', st')"
    by (auto split: option.splits)
  have eq: "moves_calls fuel D E dims p (a # as) game st =
      play_calls fuel D E dims game1 res st @
      moves_calls fuel D E dims p as (rewind D game2 (res = Failed)) st2"
    by (simp add: st a)
  show ?case
    unfolding eq by (rule dict_grows_trans[OF play[OF a] Cons.IH[OF b]])
qed

lemma topSort_play_grows:
  assumes "topSort_play fuel D E dims game res st = Some (g', st')"
  shows "dict_grows D E dims (play_calls fuel D E dims game res st) st st'"
  using assms
proof (induction fuel arbitrary: game res st g' st')
  case 0
  then show ?case by simp
next
  case (Suc fuel)
  let ?ext = "BOARDS D game C_PLAYER1 @ BOARDS D game C_PLAYER2"
  let ?st1 = "st\<lparr>visited := insert ?ext (visited st)\<rparr>"
  let ?node = "call_node D game res"
  let ?p = "call_player D game res"
  note eq = topSort_play_Suc[of fuel D E dims game res st]
  note ceq = play_calls_Suc[of fuel D E dims game res st]
  show ?case
  proof (cases "call_passes D E dims game res")
    case False
    then have "st' = st" using Suc.prems unfolding eq by auto
    then show ?thesis by (simp add: dict_grows_refl del: play_calls.simps)
  next
    case pass: True
    show ?thesis
    proof (cases "?ext \<in> visited st")
      case True
      then have "st' = st" using Suc.prems pass unfolding eq by auto
      then show ?thesis by (simp add: dict_grows_refl del: play_calls.simps)
    next
      case nv: False
      have cr: "created_in D E dims (game, res, st) (infoSet ?node) ?node"
        using pass nv by (simp add: created_in_def)
      show ?thesis
      proof (cases "is_terminal ?node")
        case True
        have s': "st' = store_node ?node ?st1" using Suc.prems pass nv True unfolding eq by auto
        have c: "play_calls (Suc fuel) D E dims game res st = [(game, res, st)]"
          unfolding ceq using pass nv True by simp
        have "dict_grows D E dims [(game, res, st)] st ?st1"
          by (rule dict_grows_visited[where V="insert ?ext (visited st)"]) (rule dict_grows_refl)
        from dict_grows_store[OF this cr] show ?thesis unfolding c s' by simp
      next
        case False
        from Suc.prems pass nv False obtain g2 st2 where
          m: "topSort_moves fuel D E dims ?p (valid_moves_colors D game ?p) game ?st1 = Some (g2, st2)"
          and s': "st' = store_node ?node st2"
          unfolding eq by (auto split: option.splits)
        let ?ms = "moves_calls fuel D E dims ?p (valid_moves_colors D game ?p) game ?st1"
        have c: "play_calls (Suc fuel) D E dims game res st = (game, res, st) # ?ms"
          unfolding ceq using pass nv False by simp
        have "dict_grows D E dims ?ms ?st1 st2"
          by (rule topSort_moves_grows[OF _ m]) (rule Suc.IH)
        then have "dict_grows D E dims ?ms st st2" by (rule dict_grows_visited)
        then have "dict_grows D E dims ((game, res, st) # ?ms) st st2"
          by (rule dict_grows_mono) auto
        from dict_grows_store[OF this cr] show ?thesis unfolding c s' by simp
      qed
    qed
  qed
qed

text \<open>
  Claim C4, as amended. Every key stored in the dictionary the construction returns
  belongs to a node that was created in a call of \<^verbatim>\<open>__topSort_play\<close> of that
  construction, on a game state that passed the builder's gate: the legality check
  accepts the node's own board (the rule engine does not flag it illegal, its turn owner
  is the node's player, and it has more empty cells than the hidden count), or, for a
  call that does not follow a failed move, it accepts the opponent's board of the same
  game state, one step ahead.
\<close>

theorem stored_keys_pass_gate:
  assumes "init_board_topSorted fuel D E dims = Some (ns, d)" and "d k = Some n"
  shows "key_created fuel D E dims k n"
proof -
  let ?st0 = "\<lparr>stack = [], visited = {}, builder_dict = Map.empty\<rparr>"
  from assms(1) obtain g st where
    run: "topSort_play fuel D E dims (new_game D dims) Ongoing ?st0 = Some (g, st)" and
    d: "d = builder_dict st"
    by (auto simp: init_board_topSorted_def split: option.splits)
  have "builder_dict st k = Some n \<longrightarrow> builder_dict ?st0 k = Some n \<or>
        list_ex (\<lambda>c. created_in D E dims c k n)
          (play_calls fuel D E dims (new_game D dims) Ongoing ?st0)"
    using topSort_play_grows[OF run] unfolding dict_grows_def by blast
  then show ?thesis using assms(2) d by (simp add: key_created_def)
qed

lemmas build_defs = init_board_topSorted_def dark_line_def hex_line_def line_winner_def stones_def
  dark_step_def view_def set_view_def is_board_legal_def store_node_def Node_init_def
  get_infoset_def reverse_player_def Let_def

theorem stored_keys_pass_gate_witness:
  "\<exists>ns d n. init_board_topSorted 6 dark_line hex_line (1, 2) = Some (ns, d) \<and>
     d (C_PLAYER1, [Stone C_PLAYER1, NEUTRAL], 0) = Some n \<and>
     key_created 6 dark_line hex_line (1, 2) (C_PLAYER1, [Stone C_PLAYER1, NEUTRAL], 0) n"
proof -
  obtain ns d n where run: "init_board_topSorted 6 dark_line hex_line (1, 2) = Some (ns, d)"
    and k: "d (C_PLAYER1, [Stone C_PLAYER1, NEUTRAL], 0) = Some n"
    by (simp add: build_defs eval_nat_numeral)
  from stored_keys_pass_gate[OF run k] run k show ?thesis by blast
qed

text \<open>
  A key that no call of the construction makes a node for is not among the created
  keys: on the board of one row and two columns, player 1 with an empty view and one
  hidden stone of player 2.
\<close>

lemma never_stored_key_not_created:
  "\<not> key_created 6 dark_line hex_line (1, 2) (C_PLAYER1, [NEUTRAL, NEUTRAL], 1) n"
  by (simp add: key_created_def created_in_def call_node_def call_player_def call_passes_def
      build_defs eval_nat_numeral)

text \<open>
  Claim C4 as stated fails: on the board of one row and two columns the terminal node of
  player 1 with a stone on the first cell is stored, and the legality check rejects its
  own board (after the winning move the turn owner is player 2); the lookahead on
  player 2's board kept the branch.
\<close>

theorem stored_key_fails_legality_check:
  "(case init_board_topSorted 6 dark_line hex_line (1, 2) of
      None \<Rightarrow> False
    | Some (ns, d) \<Rightarrow>
        d (C_PLAYER1, [Stone C_PLAYER1, NEUTRAL], 0) = Some (ns ! 2) \<and>
        is_terminal (ns ! 2) \<and>
        \<not> is_board_legal hex_line (1, 2) [Stone C_PLAYER1, NEUTRAL] C_PLAYER2 C_PLAYER1 0)"
  by (simp add: build_defs eval_nat_numeral)

text \<open>
  Claim C3 fails on the board of two rows and one column: the node of player 2 with the
  empty view and one hidden stone stands at index 2 of the returned list, and its
  successor for cell 1 (the hidden stone revealed there, hidden count 0) is in the
  dictionary and stands at index 1. The depth-first run pushed the parent when the first
  full state with its information set was finished; the successor belongs to a second
  full state with the same information set and was pushed later.
\<close>

theorem topological_order_violated:
  "(case init_board_topSorted 6 dark_line hex_line (2, 1) of
      None \<Rightarrow> False
    | Some (ns, d) \<Rightarrow>
        map infoSet ns =
          [(C_PLAYER1, [NEUTRAL, NEUTRAL], 0),
           (C_PLAYER2, [NEUTRAL, Stone C_PLAYER1], 0),
           (C_PLAYER2, [NEUTRAL, NEUTRAL], 1),
           (C_PLAYER2, [Stone C_PLAYER1, NEUTRAL], 0)] \<and>
        successors (ns ! 2) 1 =
          Some [(C_PLAYER2, [NEUTRAL, Stone C_PLAYER2], 1),
                (C_PLAYER2, [NEUTRAL, Stone C_PLAYER1], 0)] \<and>
        d (C_PLAYER2, [NEUTRAL, Stone C_PLAYER1], 0) = Some (ns ! 1))"
  by (simp add: build_defs successors_def add_stone_def eval_nat_numeral)

section \<open>The solver object the construction returns\<close>

text \<open>
  The nodes the builder stores are as \<^verbatim>\<open>Node.__init__\<close> made them, and the dictionary
  and the stack hold the same nodes, one for each information set.
\<close>

lemma built_node_init:
  "built_node ((Node_init b mh p hid)\<lparr>is_terminal := t\<rparr>)"
  by (simp add: built_node_def Node_init_def)

lemma built_node_fresh:
  assumes "built_node n"
  shows "node_wf n \<and> num_actions n = length (board n) \<and> visits n = 1 \<and> T n = 0 \<and> u n = 0 \<and>
         pSum1 n = 1 \<and> pSum2 n = 1"
proof -
  let ?m = "(Node_init (board n) (move_history n) (player n) (h n))\<lparr>is_terminal := is_terminal n\<rparr>"
  have "node_wf ?m \<and> num_actions ?m = length (board ?m) \<and> visits ?m = 1 \<and> T ?m = 0 \<and> u ?m = 0 \<and>
         pSum1 ?m = 1 \<and> pSum2 ?m = 1"
    by (simp add: node_wf_def Node_init_def)
  moreover have "n = ?m" using assms by (simp add: built_node_def)
  ultimately show ?thesis by simp
qed

lemma build_ok_dict:
  "build_ok st \<Longrightarrow> builder_dict st k = Some n \<longleftrightarrow> n \<in> set (stack st) \<and> infoSet n = k"
  unfolding build_ok_def by blast

lemma build_ok_stack:
  "build_ok st \<Longrightarrow> (\<forall>n \<in> set (stack st). built_node n) \<and> distinct (map infoSet (stack st))"
  unfolding build_ok_def by blast

lemma store_node_ok:
  assumes "build_ok st" and "built_node node"
  shows "build_ok (store_node node st)"
proof (cases "builder_dict st (infoSet node) = None")
  case False
  then show ?thesis using assms(1) by (auto simp: store_node_def)
next
  case True
  have other: "infoSet m \<noteq> infoSet node" if "m \<in> set (stack st)" for m
  proof
    assume "infoSet m = infoSet node"
    then have "builder_dict st (infoSet node) = Some m"
      using that build_ok_dict[OF assms(1), of "infoSet node" m] by simp
    with True show False by simp
  qed
  have new: "infoSet node \<notin> infoSet ` set (stack st)" using other by (metis imageE)
  have eq: "store_node node st =
      st\<lparr>builder_dict := (builder_dict st)(infoSet node \<mapsto> node), stack := stack st @ [node]\<rparr>"
    using True by (simp add: store_node_def)
  show ?thesis
    unfolding eq build_ok_def
  proof (intro conjI allI)
    show "\<forall>n\<in>set (stack (st\<lparr>builder_dict := (builder_dict st)(infoSet node \<mapsto> node),
                          stack := stack st @ [node]\<rparr>)). built_node n"
      using build_ok_stack[OF assms(1)] assms(2) by auto
    show "distinct (map infoSet (stack (st\<lparr>builder_dict := (builder_dict st)(infoSet node \<mapsto> node),
                          stack := stack st @ [node]\<rparr>)))"
      using build_ok_stack[OF assms(1)] new by simp
    fix k n
    show "(builder_dict (st\<lparr>builder_dict := (builder_dict st)(infoSet node \<mapsto> node),
                          stack := stack st @ [node]\<rparr>) k = Some n) =
          (n \<in> set (stack (st\<lparr>builder_dict := (builder_dict st)(infoSet node \<mapsto> node),
                          stack := stack st @ [node]\<rparr>)) \<and> infoSet n = k)"
    proof (cases "k = infoSet node")
      case True
      show ?thesis using True other[of n] by auto
    next
      case False
      then show ?thesis using build_ok_dict[OF assms(1), of k n] by auto
    qed
  qed
qed

lemma visited_ok: "build_ok (st\<lparr>visited := V\<rparr>) = build_ok st"
  by (simp add: build_ok_def)

lemma topSort_moves_ok:
  assumes play: "\<And>game res st g' st'. build_ok st \<Longrightarrow>
             topSort_play fuel D E dims game res st = Some (g', st') \<Longrightarrow> build_ok st'"
    and "build_ok st"
    and "topSort_moves fuel D E dims p as game st = Some (g', st')"
  shows "build_ok st'"
  using assms(2,3)
proof (induction as arbitrary: game st)
  case Nil
  then show ?case by simp
next
  case (Cons a as)
  obtain game1 res where st: "step D game p a = (game1, res)" by (cases "step D game p a")
  from Cons.prems(2) st obtain game2 st2 where
    a: "topSort_play fuel D E dims game1 res st = Some (game2, st2)" and
    b: "topSort_moves fuel D E dims p as (rewind D game2 (res = Failed)) st2 = Some (g', st')"
    by (auto split: option.splits)
  from play[OF Cons.prems(1) a] have "build_ok st2" .
  from Cons.IH[OF this b] show ?case .
qed

lemma topSort_play_ok:
  assumes "build_ok st"
    and "topSort_play fuel D E dims game res st = Some (g', st')"
  shows "build_ok st'"
  using assms
proof (induction fuel arbitrary: game res st g' st')
  case 0
  then show ?case by simp
next
  case (Suc fuel)
  let ?p = "case res of Won w \<Rightarrow> w | _ \<Rightarrow> turn_info D game"
  let ?node = "(Node_init (BOARDS D game ?p) (game_move_history D game ?p) ?p
                  (totalHidden_for_player D game ?p))
                   \<lparr>is_terminal := (res \<noteq> Failed \<and> res \<noteq> Ongoing)\<rparr>"
  let ?pruned = "(if res = Failed
             then \<not> is_board_legal E dims (BOARDS D game ?p) (reverse_player ?p) ?p
                      (totalHidden_for_player D game ?p)
             else \<not> is_board_legal E dims (BOARDS D game ?p) (reverse_player ?p) ?p
                      (totalHidden_for_player D game ?p) \<and>
                  \<not> is_board_legal E dims (BOARDS D game (reverse_player ?p)) ?p (reverse_player ?p)
                       (totalHidden_for_player D game (reverse_player ?p)))"
  let ?ext = "BOARDS D game C_PLAYER1 @ BOARDS D game C_PLAYER2"
  let ?st1 = "st\<lparr>visited := insert ?ext (visited st)\<rparr>"
  let ?A = "Some (game, store_node ?node ?st1)"
  let ?B = "case topSort_moves fuel D E dims ?p (valid_moves_colors D game ?p) game ?st1 of
              None \<Rightarrow> None
            | Some (game', st') \<Rightarrow> Some (game', store_node ?node st')"
  have eq: "topSort_play (Suc fuel) D E dims game res st =
      (if ?pruned then Some (game, st)
       else if ?ext \<in> visited st then Some (game, st)
       else if is_terminal ?node then ?A else ?B)"
    by (simp add: Let_def)
  have bn: "built_node ?node" by (rule built_node_init)
  have a1: "build_ok ?st1" using Suc.prems(1) by (simp add: visited_ok)
  show ?case
  proof (cases "?pruned")
    case True
    have "topSort_play (Suc fuel) D E dims game res st = Some (game, st)"
      unfolding eq by (rule if_P[OF True])
    then show ?thesis using Suc.prems by (simp del: topSort_play.simps)
  next
    case np: False
    show ?thesis
    proof (cases "?ext \<in> visited st")
      case True
      have "topSort_play (Suc fuel) D E dims game res st = Some (game, st)"
        unfolding eq if_not_P[OF np] by (rule if_P[OF True])
      then show ?thesis using Suc.prems by (simp del: topSort_play.simps)
    next
      case nv: False
      show ?thesis
      proof (cases "is_terminal ?node")
        case True
        have "topSort_play (Suc fuel) D E dims game res st = ?A"
          unfolding eq if_not_P[OF np] if_not_P[OF nv] by (rule if_P[OF True])
        then have "st' = store_node ?node ?st1" using Suc.prems(2)
          by (simp del: topSort_play.simps)
        then show ?thesis using store_node_ok[OF a1 bn] by simp
      next
        case False
        have "topSort_play (Suc fuel) D E dims game res st = ?B"
          unfolding eq if_not_P[OF np] if_not_P[OF nv] by (rule if_not_P[OF False])
        then obtain g2 st2 where
          m: "topSort_moves fuel D E dims ?p (valid_moves_colors D game ?p) game ?st1 = Some (g2, st2)"
          and s': "st' = store_node ?node st2"
          using Suc.prems(2) by (auto split: option.splits simp del: topSort_play.simps)
        have "build_ok st2"
          by (rule topSort_moves_ok[OF _ a1 m]) (rule Suc.IH)
        then show ?thesis using store_node_ok[OF _ bn] s' by simp
      qed
    qed
  qed
qed

lemma init_board_topSorted_ok:
  assumes "init_board_topSorted fuel D E dims = Some (ns, d)"
  shows "(\<forall>n \<in> set ns. built_node n) \<and> distinct (map infoSet ns) \<and>
         (\<forall>k n. d k = Some n \<longleftrightarrow> n \<in> set ns \<and> infoSet n = k)"
proof -
  let ?st0 = "\<lparr>stack = [], visited = {}, builder_dict = Map.empty\<rparr>"
  from assms obtain g st where
    run: "topSort_play fuel D E dims (new_game D dims) Ongoing ?st0 = Some (g, st)" and
    d: "d = builder_dict st" and ns: "ns = rev (stack st)"
    by (auto simp: init_board_topSorted_def split: option.splits)
  have "build_ok ?st0" by (simp add: build_ok_def)
  from topSort_play_ok[OF this run] have ok: "build_ok st" .
  have "\<forall>n \<in> set ns. built_node n" using build_ok_stack[OF ok] by (simp add: ns)
  moreover have "distinct (map infoSet ns)"
    using build_ok_stack[OF ok] by (simp add: ns distinct_map)
  moreover have "\<forall>k n. d k = Some n \<longleftrightarrow> n \<in> set ns \<and> infoSet n = k"
    using build_ok_dict[OF ok] by (simp add: ns d)
  ultimately show ?thesis by blast
qed

lemma index_of_distinct:
  assumes "distinct (map f xs)"
  shows "map_of (zip (map f xs) [0..<length xs]) k = Some i \<longleftrightarrow> i < length xs \<and> f (xs ! i) = k"
proof
  assume "map_of (zip (map f xs) [0..<length xs]) k = Some i"
  then have "(k, i) \<in> set (zip (map f xs) [0..<length xs])" by (rule map_of_SomeD)
  then obtain j where "j < length xs" "map f xs ! j = k" "[0..<length xs] ! j = i"
    by (auto simp: set_zip)
  then show "i < length xs \<and> f (xs ! i) = k" by auto
next
  assume a: "i < length xs \<and> f (xs ! i) = k"
  have "(k, i) \<in> set (zip (map f xs) [0..<length xs])"
    using a by (auto simp: set_zip intro!: exI[of _ i])
  moreover have "distinct (map fst (zip (map f xs) [0..<length xs]))" using assms by simp
  ultimately show "map_of (zip (map f xs) [0..<length xs]) k = Some i" by (rule map_of_is_SomeI[rotated])
qed

lemma FSICFR_init_dict:
  assumes "FSICFR_init fuel D E rows cols = Some self"
    and "init_board_topSorted fuel D E (rows, cols) = Some (ns, d)"
  shows "nodes self = ns \<and>
         (d k = Some n \<longleftrightarrow> (\<exists>i. nodes_dict self k = Some i \<and> i < length ns \<and> ns ! i = n))"
proof -
  note ok = init_board_topSorted_ok[OF assms(2)]
  have self: "self = \<lparr> num_rows = rows, num_cols = cols, cfr_num_actions = cols * rows, nodes = ns,
                 nodes_dict = (\<lambda>k. case d k of
                                      None \<Rightarrow> None
                                    | Some n \<Rightarrow> map_of (zip (map infoSet ns) [0..<length ns]) k) \<rparr>"
    using assms by (simp add: FSICFR_init_def)
  from ok have dist: "distinct (map infoSet ns)" by simp
  note idx = index_of_distinct[OF dist]
  have dk: "\<And>k n. d k = Some n \<longleftrightarrow> n \<in> set ns \<and> infoSet n = k" using ok by blast
  show ?thesis
  proof (intro conjI iffI)
    show "nodes self = ns" by (simp add: self)
    assume a: "d k = Some n"
    then have "n \<in> set ns" "infoSet n = k" using dk by auto
    then obtain i where i: "i < length ns" "ns ! i = n" by (auto simp: in_set_conv_nth)
    then have "map_of (zip (map infoSet ns) [0..<length ns]) k = Some i"
      using idx[of k i] \<open>infoSet n = k\<close> by simp
    then have "nodes_dict self k = Some i" using a by (simp add: self)
    then show "\<exists>i. nodes_dict self k = Some i \<and> i < length ns \<and> ns ! i = n" using i by blast
  next
    assume "\<exists>i. nodes_dict self k = Some i \<and> i < length ns \<and> ns ! i = n"
    then obtain i where i: "nodes_dict self k = Some i" "i < length ns" "ns ! i = n" by blast
    from i(1) obtain m where m: "d k = Some m"
      "map_of (zip (map infoSet ns) [0..<length ns]) k = Some i"
      by (auto simp: self split: option.splits)
    from m(2) have "infoSet (ns ! i) = k" using idx[of k i] by simp
    then have "d k = Some (ns ! i)" using dk[of k "ns ! i"] i(2) by simp
    then show "d k = Some n" using i(3) by simp
  qed
qed

lemma FSICFR_init_wf:
  assumes "FSICFR_init fuel D E rows cols = Some self"
    and "\<forall>n \<in> set (nodes self). length (board n) = cols * rows"
  shows "cfr_wf self \<and> (\<forall>n \<in> set (nodes self). visits n = 1 \<and> T n = 0 \<and> u n = 0)"
proof -
  from assms(1) obtain ns d where
    run: "init_board_topSorted fuel D E (rows, cols) = Some (ns, d)"
    by (auto simp: FSICFR_init_def split: option.splits)
  note ok = init_board_topSorted_ok[OF run]
  have self: "self = \<lparr> num_rows = rows, num_cols = cols, cfr_num_actions = cols * rows, nodes = ns,
                 nodes_dict = (\<lambda>k. case d k of
                                      None \<Rightarrow> None
                                    | Some n \<Rightarrow> map_of (zip (map infoSet ns) [0..<length ns]) k) \<rparr>"
    using assms(1) run by (simp add: FSICFR_init_def)
  have fresh: "\<And>n. n \<in> set ns \<Longrightarrow> node_wf n \<and> num_actions n = length (board n) \<and>
      visits n = 1 \<and> T n = 0 \<and> u n = 0"
    using ok built_node_fresh by blast
  have dict: "c < length (nodes self)" if "nodes_dict self k = Some c" for k c
  proof -
    from that have "map_of (zip (map infoSet ns) [0..<length ns]) k = Some c"
      by (auto simp: self split: option.splits)
    then show ?thesis using index_of_distinct[of infoSet ns k c] ok by (simp add: self)
  qed
  have "cfr_wf self"
    unfolding cfr_wf_def
  proof (intro conjI ballI allI impI)
    fix n assume "n \<in> set (nodes self)"
    then show "node_wf n" using fresh by (simp add: self)
  next
    fix n assume n: "n \<in> set (nodes self)"
    then have "num_actions n = length (board n)" using fresh by (simp add: self)
    also have "\<dots> = cols * rows" using assms(2) n by blast
    finally show "num_actions n = cfr_num_actions self" by (simp add: self)
  next
    fix k c assume "nodes_dict self k = Some c"
    then show "c < length (nodes self)" by (rule dict)
  qed
  moreover have "\<forall>n \<in> set (nodes self). visits n = 1 \<and> T n = 0 \<and> u n = 0"
    using fresh by (simp add: self)
  ultimately show ?thesis by blast
qed

text \<open>
  The dictionary of the solver object it returns is keyed by the information sets of the
  nodes.
\<close>

lemma FSICFR_init_keyed:
  assumes "FSICFR_init fuel D E rows cols = Some self"
  shows "dict_keyed self"
proof -
  from assms obtain ns d where
    run: "init_board_topSorted fuel D E (rows, cols) = Some (ns, d)"
    by (auto simp: FSICFR_init_def split: option.splits)
  note ok = init_board_topSorted_ok[OF run]
  have self: "self = \<lparr> num_rows = rows, num_cols = cols, cfr_num_actions = cols * rows, nodes = ns,
                 nodes_dict = (\<lambda>k. case d k of
                                      None \<Rightarrow> None
                                    | Some n \<Rightarrow> map_of (zip (map infoSet ns) [0..<length ns]) k) \<rparr>"
    using assms run by (simp add: FSICFR_init_def)
  have a: "infoSet (nodes self ! c) = k" if "nodes_dict self k = Some c" for k c
  proof -
    from that have "map_of (zip (map infoSet ns) [0..<length ns]) k = Some c"
      by (auto simp: self split: option.splits)
    then show ?thesis using index_of_distinct[of infoSet ns k c] ok by (simp add: self)
  qed
  have b: "infoSet n = get_infoset (player n) (board n) (h n)" if "n \<in> set (nodes self)" for n
  proof -
    have "built_node n" using ok that by (simp add: self)
    then have "n = (Node_init (board n) (move_history n) (player n) (h n))\<lparr>is_terminal := is_terminal n\<rparr>"
      by (simp add: built_node_def)
    then have "infoSet n = infoSet ((Node_init (board n) (move_history n) (player n) (h n))\<lparr>is_terminal := is_terminal n\<rparr>)"
      by simp
    then show ?thesis by (simp add: Node_init_def)
  qed
  show ?thesis unfolding dict_keyed_def using a b by blast
qed

text \<open>
  The solver object for the board of one row and two columns: the empty board and the
  two boards on which player 1 has won with the first stone.
\<close>

lemma built_1x2:
  "\<exists>self. FSICFR_init 6 dark_line hex_line 1 2 = Some self \<and> cfr_wf self \<and>
     (\<forall>n \<in> set (nodes self). visits n = 1 \<and> T n = 0) \<and>
     length (nodes self) = 3 \<and> cfr_num_actions self = 2 \<and> num_rows self = 1 \<and> num_cols self = 2 \<and>
     map board (nodes self) =
       [[NEUTRAL, NEUTRAL], [NEUTRAL, Stone C_PLAYER1], [Stone C_PLAYER1, NEUTRAL]] \<and>
     map player (nodes self) = [C_PLAYER1, C_PLAYER1, C_PLAYER1] \<and>
     map is_terminal (nodes self) = [False, True, True]"
proof -
  have "FSICFR_init 6 dark_line hex_line 1 2 \<noteq> None"
    by (simp add: FSICFR_init_def build_defs eval_nat_numeral)
  then obtain self where run: "FSICFR_init 6 dark_line hex_line 1 2 = Some self" by auto
  have f: "(\<forall>n \<in> set (nodes self). length (board n) = 2 * 1) \<and>
     length (nodes self) = 3 \<and> cfr_num_actions self = 2 \<and> num_rows self = 1 \<and> num_cols self = 2 \<and>
     map board (nodes self) =
       [[NEUTRAL, NEUTRAL], [NEUTRAL, Stone C_PLAYER1], [Stone C_PLAYER1, NEUTRAL]] \<and>
     map player (nodes self) = [C_PLAYER1, C_PLAYER1, C_PLAYER1] \<and>
     map is_terminal (nodes self) = [False, True, True]"
    using run by (auto simp: FSICFR_init_def build_defs eval_nat_numeral)
  then have b: "\<forall>n \<in> set (nodes self). length (board n) = 2 * 1" by (rule conjunct1)
  have wfc: "cfr_wf self" "\<forall>n \<in> set (nodes self). visits n = 1 \<and> T n = 0"
    using FSICFR_init_wf[OF run b] by auto
  show ?thesis
  proof (intro exI[of _ self] conjI)
  qed (use run wfc f in simp_all)
qed

section \<open>The training loop\<close>

lemmas train_defs = train_iteration_def forward_pass_def forward_node_def getStrategy_def
  getStrategy_clip_def getStrategy_normalize_def forward_action_def successors_def add_stone_def
  forward_child_def update_node_def backward_pass_def backward_node_def backward_inner_def
  backward_action_def backward_child_def regret_update_def reset_transients_def Node_init_def
  get_infoset_def cfr_1x1_def hex_line_def line_winner_def Let_def

lemma cfr_1x1_wf: "cfr_wf cfr_1x1"
  by (auto simp: cfr_wf_def cfr_1x1_def node_wf_def Node_init_def split: if_splits)

lemma fold_invariant:
  assumes "P s" and "\<And>x s. x \<in> set xs \<Longrightarrow> P s \<Longrightarrow> P (f x s)"
  shows "P (fold f xs s)"
  using assms by (induction xs arbitrary: s) simp_all

lemma foldM_invariant:
  assumes "foldM f xs s = Inr s'" and "P s"
    and "\<And>x s s'. x \<in> set xs \<Longrightarrow> P s \<Longrightarrow> f x s = Inr s' \<Longrightarrow> P s'"
  shows "P s'"
  using assms
proof (induction xs arbitrary: s)
  case Nil
  then show ?case by simp
next
  case (Cons x xs)
  from Cons.prems(1) obtain s1 where s1: "f x s = Inr s1" "foldM f xs s1 = Inr s'"
    by (auto split: sum.splits)
  have "P s1" using Cons.prems(3)[OF _ Cons.prems(2) s1(1)] by simp
  moreover have "P t'" if "y \<in> set xs" "P t" "f y t = Inr t'" for y t t'
    using Cons.prems(3)[of y t t'] that by simp
  ultimately show ?case using Cons.IH[OF s1(2)] by blast
qed

lemma foldM_total:
  assumes "P s" and "\<And>x s. x \<in> set xs \<Longrightarrow> P s \<Longrightarrow> \<exists>s'. f x s = Inr s' \<and> P s'"
  shows "\<exists>s'. foldM f xs s = Inr s' \<and> P s'"
  using assms
proof (induction xs arbitrary: s)
  case Nil
  then show ?case by simp
next
  case (Cons x xs)
  from Cons.prems(2)[of x s] Cons.prems(1) obtain s1 where s1: "f x s = Inr s1" "P s1"
    by auto
  have "\<exists>t'. f y t = Inr t' \<and> P t'" if "y \<in> set xs" "P t" for y t
    using Cons.prems(2)[of y t] that by simp
  from Cons.IH[OF s1(2) this] obtain s' where "foldM f xs s1 = Inr s'" "P s'"
    by auto
  then show ?case using s1 by simp
qed

lemma foldM_append:
  "foldM f (xs @ ys) s = (case foldM f xs s of Inl e \<Rightarrow> Inl e | Inr s' \<Rightarrow> foldM f ys s')"
  by (induction xs arbitrary: s) (simp_all split: sum.splits)

text \<open>getStrategy touches the strategy and strategySum fields only.\<close>

lemma getStrategy_clip_frame:
  "static_eq n (fst (getStrategy_clip n)) \<and> learn_eq n (fst (getStrategy_clip n)) \<and>
   reach_eq n (fst (getStrategy_clip n)) \<and> strategySum (fst (getStrategy_clip n)) = strategySum n"
  unfolding getStrategy_clip_def
  by (rule fold_invariant[where P="\<lambda>p. static_eq n (fst p) \<and> learn_eq n (fst p) \<and>
        reach_eq n (fst p) \<and> strategySum (fst p) = strategySum n"])
     (auto simp: Let_def static_eq_def learn_eq_def reach_eq_def)

lemma getStrategy_normalize_frame:
  "static_eq n (getStrategy_normalize s n) \<and> learn_eq n (getStrategy_normalize s n) \<and>
   reach_eq n (getStrategy_normalize s n)"
  unfolding getStrategy_normalize_def
  by (rule fold_invariant[where P="\<lambda>m. static_eq n m \<and> learn_eq n m \<and> reach_eq n m"])
     (auto simp: Let_def static_eq_def learn_eq_def reach_eq_def)

lemma getStrategy_frame:
  "static_eq n (snd (getStrategy n)) \<and> learn_eq n (snd (getStrategy n)) \<and>
   reach_eq n (snd (getStrategy n))"
proof -
  obtain n1 s where c: "getStrategy_clip n = (n1, s)" by (cases "getStrategy_clip n")
  have n1: "static_eq n n1 \<and> learn_eq n n1 \<and> reach_eq n n1"
    using getStrategy_clip_frame[of n] c by simp
  have "static_eq n1 (getStrategy_normalize s n1) \<and> learn_eq n1 (getStrategy_normalize s n1) \<and>
   reach_eq n1 (getStrategy_normalize s n1)"
    by (rule getStrategy_normalize_frame)
  with n1 show ?thesis
    by (simp add: getStrategy_def c Let_def static_eq_def learn_eq_def reach_eq_def)
qed

lemma getStrategy_fst: "fst (getStrategy n) = strategy (snd (getStrategy n))"
  by (simp add: getStrategy_def Let_def split: prod.splits)

lemma static_eq_refl [simp]: "static_eq n n" by (simp add: static_eq_def)
lemma learn_eq_refl [simp]: "learn_eq n n" by (simp add: learn_eq_def)
lemma reach_eq_refl [simp]: "reach_eq n n" by (simp add: reach_eq_def)
lemma strat_eq_refl [simp]: "strat_eq n n" by (simp add: strat_eq_def)
lemma cfr_static_eq_refl [simp]: "cfr_static_eq s s" by (simp add: cfr_static_eq_def)
lemma only_node_refl [simp]: "only_node i s s" by (simp add: only_node_def)

lemma static_eq_trans: "static_eq a b \<Longrightarrow> static_eq b c \<Longrightarrow> static_eq a c"
  by (simp add: static_eq_def)

lemma cfr_static_eq_trans: "cfr_static_eq a b \<Longrightarrow> cfr_static_eq b c \<Longrightarrow> cfr_static_eq a c"
  by (simp add: cfr_static_eq_def)

lemma only_node_trans: "only_node i a b \<Longrightarrow> only_node i b c \<Longrightarrow> only_node i a c"
  by (auto simp: only_node_def intro: static_eq_trans cfr_static_eq_trans)

lemma only_node_update:
  assumes "static_eq (nodes s ! i) (f (nodes s ! i))" and "i < length (nodes s)"
  shows "only_node i s (update_node i f s)"
  using assms by (simp add: only_node_def update_node_def cfr_static_eq_def)

lemma only_node_set:
  assumes "static_eq (nodes s ! i) m" and "i < length (nodes s)"
  shows "only_node i s (s\<lparr>nodes := (nodes s)[i := m]\<rparr>)"
  using assms by (simp add: only_node_def cfr_static_eq_def)

lemma only_node_length: "only_node i s s' \<Longrightarrow> length (nodes s') = length (nodes s)"
  by (simp add: only_node_def cfr_static_eq_def)

lemma acc_rel_refl [simp]: "acc_rel i p p" by (simp add: acc_rel_def)

lemma acc_rel_trans: "acc_rel i p q \<Longrightarrow> acc_rel i q r \<Longrightarrow> acc_rel i p r"
  by (auto simp: acc_rel_def reach_eq_def strat_eq_def intro: only_node_trans)

lemma backward_child_acc:
  assumes "i < length (nodes (fst p))"
  shows "acc_rel i p (backward_child i strat a c p)"
proof (cases p)
  case (Pair s r)
  show ?thesis
  proof (cases "nodes_dict s c")
    case None
    then show ?thesis by (simp add: backward_child_def Pair)
  next
    case (Some j)
    then show ?thesis
      using assms
      by (simp add: backward_child_def Pair Let_def acc_rel_def only_node_def update_node_def
          cfr_static_eq_def static_eq_def reach_eq_def strat_eq_def)
  qed
qed

lemma acc_rel_fold:
  assumes "\<And>x q. x \<in> set xs \<Longrightarrow> i < length (nodes (fst q)) \<Longrightarrow> acc_rel i q (f x q)"
    and "i < length (nodes (fst p))"
  shows "acc_rel i p (fold f xs p)"
proof (rule fold_invariant[where P="\<lambda>q. acc_rel i p q"])
  show "acc_rel i p p" by simp
next
  fix x q assume x: "x \<in> set xs" and q: "acc_rel i p q"
  have "i < length (nodes (fst q))"
    using q assms(2) by (auto simp: acc_rel_def dest: only_node_length)
  from assms(1)[OF x this] q show "acc_rel i p (f x q)" by (blast intro: acc_rel_trans)
qed

lemma backward_action_acc:
  assumes "i < length (nodes (fst p))"
  shows "acc_rel i p (backward_action i strat a p)"
proof (cases p)
  case (Pair s r)
  have f: "acc_rel i (s, r) (fold (backward_child i strat a) cs (s, r))" for cs
    by (rule acc_rel_fold) (use assms Pair in \<open>simp_all add: backward_child_acc\<close>)
  show ?thesis
    unfolding Pair backward_action_def
    by (simp add: f split: option.splits)
qed

lemma backward_actions_acc:
  assumes "i < length (nodes (fst p))"
  shows "acc_rel i p (fold (backward_action i strat) as p)"
  by (rule acc_rel_fold) (use assms in \<open>simp_all add: backward_action_acc\<close>)

lemma regret_update_rel:
  "regret_update cfp regret a n = Inr m \<Longrightarrow> upd_rel n m"
  by (auto simp: regret_update_def Let_def upd_rel_def static_eq_def reach_eq_def strat_eq_def
      split: if_splits)

lemma upd_rel_trans: "upd_rel a b \<Longrightarrow> upd_rel b c \<Longrightarrow> upd_rel a c"
  by (simp add: upd_rel_def static_eq_def reach_eq_def strat_eq_def)

lemma regret_updates_rel:
  assumes "foldM (regret_update cfp regret) as n = Inr m"
  shows "upd_rel n m"
proof (rule foldM_invariant[OF assms, where P="\<lambda>m. upd_rel n m"])
  show "upd_rel n n" by (simp add: upd_rel_def)
next
  fix x s s' assume "upd_rel n s" "regret_update cfp regret x s = Inr s'"
  then show "upd_rel n s'" by (blast intro: upd_rel_trans regret_update_rel)
qed

lemma backward_inner_frame:
  assumes "backward_inner i strat (s, r) = Inr (s', r')" and "i < length (nodes s)"
  shows "only_node i s s' \<and> length r' = length r \<and>
         reach_eq (nodes s ! i) (nodes s' ! i) \<and> strat_eq (nodes s ! i) (nodes s' ! i)"
proof -
  obtain s2 r2 where acc: "fold (backward_action i strat) [0..<cfr_num_actions s] (s, r) = (s2, r2)"
    by (cases "fold (backward_action i strat) [0..<cfr_num_actions s] (s, r)")
  have rel: "acc_rel i (s, r) (s2, r2)"
    using backward_actions_acc[of i "(s, r)" strat "[0..<cfr_num_actions s]"] assms(2) acc by simp
  then have len2: "i < length (nodes s2)"
    using assms(2) by (auto simp: acc_rel_def dest: only_node_length)
  let ?node = "nodes s2 ! i"
  let ?cfp = "if player ?node = C_PLAYER1 then pSum2 ?node else pSum1 ?node"
  from assms(1) acc obtain node3 where
    n3: "foldM (regret_update ?cfp r2) (pos_actions ?node) ?node = Inr node3"
    and s': "s' = s2\<lparr>nodes := (nodes s2)[i := node3\<lparr>T := T node3 + visits node3\<rparr>]\<rparr>"
    and r': "r' = r2"
    by (auto simp: backward_inner_def Let_def split: sum.splits)
  have u3: "upd_rel ?node node3" by (rule regret_updates_rel[OF n3])
  have "only_node i s2 s'"
    unfolding s' by (rule only_node_set) (use u3 len2 in \<open>simp_all add: upd_rel_def static_eq_def\<close>)
  then have "only_node i s s'"
    using rel by (auto simp: acc_rel_def intro: only_node_trans)
  moreover have "nodes s' ! i = node3\<lparr>T := T node3 + visits node3\<rparr>"
    using len2 by (simp add: s')
  ultimately show ?thesis
    using rel u3 by (simp add: r' acc_rel_def upd_rel_def reach_eq_def strat_eq_def)
qed

lemma backward_node_frame:
  assumes "backward_node E i (s, r) = Inr (s', r')" and "i < length (nodes s)"
  shows "only_node i s s' \<and> length r' = length r \<and>
         visits (nodes s' ! i) = 0 \<and> pSum1 (nodes s' ! i) = 0 \<and> pSum2 (nodes s' ! i) = 0"
proof -
  obtain strat node' where gs: "getStrategy (nodes s ! i) = (strat, node')"
    by (cases "getStrategy (nodes s ! i)")
  let ?s1 = "s\<lparr>nodes := (nodes s)[i := node']\<rparr>"
  have st1: "static_eq (nodes s ! i) node'"
    using getStrategy_frame[of "nodes s ! i"] gs by simp
  have o1: "only_node i s ?s1"
    by (rule only_node_set[OF st1 assms(2)])
  have len1: "i < length (nodes ?s1)" using assms(2) by simp
  from assms(1) gs obtain s3 where
    br: "(if game_status E (num_rows ?s1, num_cols ?s1) (board (nodes ?s1 ! i)) = Winner (player (nodes ?s1 ! i))
          then Inr (update_node i (\<lambda>n. n\<lparr>u := 1\<rparr>) ?s1, r)
          else if game_status E (num_rows ?s1, num_cols ?s1) (board (nodes ?s1 ! i)) \<noteq> Undecided
          then Inr (update_node i (\<lambda>n. n\<lparr>u := - 1\<rparr>) ?s1, r)
          else backward_inner i strat (?s1, r)) = Inr (s3, r')"
    and s': "s' = update_node i reset_transients s3"
    by (auto simp: backward_node_def Let_def split: sum.splits)
  have o3: "only_node i ?s1 s3 \<and> length r' = length r"
  proof (cases "game_status E (num_rows ?s1, num_cols ?s1) (board (nodes ?s1 ! i)) = Winner (player (nodes ?s1 ! i))")
    case True
    with br have "s3 = update_node i (\<lambda>n. n\<lparr>u := 1\<rparr>) ?s1" "r' = r" by simp_all
    then show ?thesis using only_node_update[of ?s1 i "\<lambda>n. n\<lparr>u := 1\<rparr>"] len1
      by (simp add: static_eq_def)
  next
    case False
    note nw = this
    show ?thesis
    proof (cases "game_status E (num_rows ?s1, num_cols ?s1) (board (nodes ?s1 ! i)) \<noteq> Undecided")
      case True
      with br nw have "s3 = update_node i (\<lambda>n. n\<lparr>u := - 1\<rparr>) ?s1" "r' = r" by simp_all
      then show ?thesis using only_node_update[of ?s1 i "\<lambda>n. n\<lparr>u := - 1\<rparr>"] len1
        by (simp add: static_eq_def)
    next
      case False
      with br nw have "backward_inner i strat (?s1, r) = Inr (s3, r')" by simp
      from backward_inner_frame[OF this len1] show ?thesis by simp
    qed
  qed
  then have len3: "i < length (nodes s3)"
    using len1 by (auto dest: only_node_length)
  have o4: "only_node i s3 s'"
    unfolding s' by (rule only_node_update) (simp_all add: len3 reset_transients_def static_eq_def)
  have "only_node i s s'"
    using o1 o3 o4 by (blast intro: only_node_trans)
  moreover have "nodes s' ! i = reset_transients (nodes s3 ! i)"
    using len3 by (simp add: s' update_node_def)
  ultimately show ?thesis
    using o3 by (simp add: reset_transients_def)
qed

lemma backward_nodes_frame:
  assumes "foldM (backward_node E) L (s, r) = Inr (s', r')"
    and "\<forall>i \<in> set L. i < length (nodes s)"
  shows "cfr_static_eq s s' \<and> length r' = length r \<and>
         (\<forall>k. static_eq (nodes s ! k) (nodes s' ! k)) \<and>
         (\<forall>k. k \<notin> set L \<longrightarrow> nodes s' ! k = nodes s ! k) \<and>
         (\<forall>k \<in> set L. visits (nodes s' ! k) = 0 \<and> pSum1 (nodes s' ! k) = 0 \<and>
                        pSum2 (nodes s' ! k) = 0)"
  using assms
proof (induction L arbitrary: s r)
  case Nil
  then show ?case by simp
next
  case (Cons i L)
  from Cons.prems(1) obtain s1 r1 where
    step: "backward_node E i (s, r) = Inr (s1, r1)" and
    rest: "foldM (backward_node E) L (s1, r1) = Inr (s', r')"
    by (auto split: sum.splits)
  have i: "i < length (nodes s)" using Cons.prems(2) by simp
  note f = backward_node_frame[OF step i]
  have len1: "length (nodes s1) = length (nodes s)"
    using f by (auto dest: only_node_length)
  have "\<forall>j \<in> set L. j < length (nodes s1)"
    using Cons.prems(2) len1 by simp
  note ih = Cons.IH[OF rest this]
  have st: "static_eq (nodes s ! k) (nodes s1 ! k)" for k
    using f by (cases "k = i") (auto simp: only_node_def)
  have same: "nodes s1 ! k = nodes s ! k" if "k \<noteq> i" for k
    using f that by (auto simp: only_node_def)
  have a: "cfr_static_eq s s'"
    using f ih by (auto simp: only_node_def intro: cfr_static_eq_trans)
  have b: "length r' = length r" using f ih by simp
  have c: "\<forall>k. static_eq (nodes s ! k) (nodes s' ! k)"
    using st ih by (blast intro: static_eq_trans)
  have d: "\<forall>k. k \<notin> set (i # L) \<longrightarrow> nodes s' ! k = nodes s ! k"
    using same ih by simp
  have e: "\<forall>k \<in> set (i # L). visits (nodes s' ! k) = 0 \<and> pSum1 (nodes s' ! k) = 0 \<and>
                        pSum2 (nodes s' ! k) = 0"
  proof
    fix k assume k: "k \<in> set (i # L)"
    show "visits (nodes s' ! k) = 0 \<and> pSum1 (nodes s' ! k) = 0 \<and> pSum2 (nodes s' ! k) = 0"
    proof (cases "k \<in> set L")
      case True
      then show ?thesis using ih by simp
    next
      case False
      then have "k = i" using k by simp
      moreover have "nodes s' ! i = nodes s1 ! i" using False \<open>k = i\<close> ih by simp
      ultimately show ?thesis using f by simp
    qed
  qed
  show ?case using a b c d e by blast
qed

lemma backward_pass_reset:
  assumes "backward_pass E (s, r) = Inr (s', r')"
  shows "\<forall>n \<in> set (nodes s'). visits n = 0 \<and> pSum1 n = 0 \<and> pSum2 n = 0"
proof -
  have run: "foldM (backward_node E) (rev [0..<length (nodes s)]) (s, r) = Inr (s', r')"
    using assms by (simp add: backward_pass_def)
  have "\<forall>i \<in> set (rev [0..<length (nodes s)]). i < length (nodes s)" by simp
  note f = backward_nodes_frame[OF run this]
  have len: "length (nodes s') = length (nodes s)" using f by (simp add: cfr_static_eq_def)
  show ?thesis
  proof
    fix n assume "n \<in> set (nodes s')"
    then obtain k where k: "k < length (nodes s')" "n = nodes s' ! k"
      by (auto simp: in_set_conv_nth)
    then have "k \<in> set (rev [0..<length (nodes s)])" using len by simp
    then show "visits n = 0 \<and> pSum1 n = 0 \<and> pSum2 n = 0" using f k by blast
  qed
qed

lemma fwd_rel_refl [simp]: "fwd_rel s s" by (simp add: fwd_rel_def)

lemma fwd_rel_trans: "fwd_rel a b \<Longrightarrow> fwd_rel b c \<Longrightarrow> fwd_rel a c"
  by (simp add: fwd_rel_def cfr_static_eq_def static_eq_def learn_eq_def strat_eq_def)

lemma fwd_rel_update:
  assumes "\<And>n. static_eq n (f n) \<and> learn_eq n (f n) \<and> strat_eq n (f n)"
  shows "fwd_rel s (update_node c f s)"
proof -
  have "static_eq (nodes s ! k) ((nodes s)[c := f (nodes s ! c)] ! k) \<and>
        learn_eq (nodes s ! k) ((nodes s)[c := f (nodes s ! c)] ! k) \<and>
        strat_eq (nodes s ! k) ((nodes s)[c := f (nodes s ! c)] ! k)"
    if "k < length (nodes s)" for k
    using that assms[of "nodes s ! c"] by (cases "k = c") simp_all
  then show ?thesis
    by (simp add: fwd_rel_def update_node_def cfr_static_eq_def)
qed

lemma forward_child_rel: "fwd_rel s (forward_child i strat a c s)"
proof (cases "nodes_dict s c")
  case None
  then show ?thesis by (simp add: forward_child_def)
next
  case (Some j)
  have u: "fwd_rel t (update_node j (\<lambda>n. n\<lparr>visits := visits n + x\<rparr>) t)"
    "fwd_rel t (update_node j (\<lambda>n. n\<lparr>pSum1 := pSum1 n + y\<rparr>) t)"
    "fwd_rel t (update_node j (\<lambda>n. n\<lparr>pSum2 := pSum2 n + y\<rparr>) t)" for t x y
    by (rule fwd_rel_update; simp add: static_eq_def learn_eq_def strat_eq_def)+
  show ?thesis
    unfolding forward_child_def Some option.case Let_def
    by (blast intro: fwd_rel_trans u)
qed

lemma forward_children_rel: "fwd_rel s (fold (forward_child i strat a) cs s)"
  by (rule fold_invariant[where P="\<lambda>t. fwd_rel s t"])
     (auto intro: fwd_rel_trans forward_child_rel)

lemma forward_action_rel: "forward_action i strat a s = Inr s' \<Longrightarrow> fwd_rel s s'"
  by (auto simp: forward_action_def forward_children_rel split: option.splits)

lemma forward_actions_rel:
  assumes "foldM (forward_action i strat) as s = Inr s'"
  shows "fwd_rel s s'"
  by (rule foldM_invariant[OF assms, where P="\<lambda>t. fwd_rel s t"])
     (auto intro: fwd_rel_trans forward_action_rel)

lemma node_wf_cong:
  assumes "node_wf n" "static_eq n m" "length (strategy m) = length (strategy n)"
    "length (regretSum m) = length (regretSum n)" "length (strategySum m) = length (strategySum n)"
  shows "node_wf m"
  using assms by (simp add: node_wf_def static_eq_def)

lemma getStrategy_wf:
  assumes "node_wf n"
  shows "node_wf (snd (getStrategy n))"
  using assms
  by (simp add: getStrategy_eq[OF assms] node_wf_def strategySum_step_def)

lemma forward_node_frame:
  assumes "forward_node j s = Inr s'" and "j < length (nodes s)"
  shows "cfr_static_eq s s' \<and>
         (\<forall>k < length (nodes s). static_eq (nodes s ! k) (nodes s' ! k) \<and>
              learn_eq (nodes s ! k) (nodes s' ! k) \<and>
              (k \<noteq> j \<longrightarrow> strat_eq (nodes s ! k) (nodes s' ! k))) \<and>
         strat_eq (snd (getStrategy (nodes s ! j))) (nodes s' ! j)"
proof -
  obtain strat node' where gs: "getStrategy (nodes s ! j) = (strat, node')"
    by (cases "getStrategy (nodes s ! j)")
  let ?s1 = "s\<lparr>nodes := (nodes s)[j := node']\<rparr>"
  from assms(1) gs have run: "foldM (forward_action j strat) (pos_actions (nodes ?s1 ! j)) ?s1 = Inr s'"
    by (simp add: forward_node_def Let_def)
  have rel: "fwd_rel ?s1 s'" by (rule forward_actions_rel[OF run])
  have fr: "static_eq (nodes s ! j) node' \<and> learn_eq (nodes s ! j) node'"
    using getStrategy_frame[of "nodes s ! j"] gs by simp
  have a: "cfr_static_eq s s'"
    using rel by (simp add: fwd_rel_def cfr_static_eq_def)
  have b: "static_eq (nodes s ! k) (nodes s' ! k) \<and> learn_eq (nodes s ! k) (nodes s' ! k) \<and>
              (k \<noteq> j \<longrightarrow> strat_eq (nodes s ! k) (nodes s' ! k))" if "k < length (nodes s)" for k
  proof (cases "k = j")
    case True
    then show ?thesis using rel fr assms(2)
      by (auto simp: fwd_rel_def static_eq_def learn_eq_def)
  next
    case False
    then show ?thesis using rel that
      by (auto simp: fwd_rel_def)
  qed
  have c: "strat_eq (snd (getStrategy (nodes s ! j))) (nodes s' ! j)"
    using rel assms(2) gs by (auto simp: fwd_rel_def)
  show ?thesis using a b c by blast
qed

lemma forward_nodes_frame:
  assumes "foldM forward_node L s = Inr s'"
    and "\<forall>i \<in> set L. i < length (nodes s)"
  shows "cfr_static_eq s s' \<and>
         (\<forall>k < length (nodes s). static_eq (nodes s ! k) (nodes s' ! k) \<and>
              learn_eq (nodes s ! k) (nodes s' ! k) \<and>
              (k \<notin> set L \<longrightarrow> strat_eq (nodes s ! k) (nodes s' ! k)))"
  using assms
proof (induction L arbitrary: s)
  case Nil
  then show ?case by simp
next
  case (Cons i L)
  from Cons.prems(1) obtain s1 where
    step: "forward_node i s = Inr s1" and rest: "foldM forward_node L s1 = Inr s'"
    by (auto split: sum.splits)
  have i: "i < length (nodes s)" using Cons.prems(2) by simp
  note f = forward_node_frame[OF step i]
  have len1: "length (nodes s1) = length (nodes s)"
    using f by (simp add: cfr_static_eq_def)
  have "\<forall>j \<in> set L. j < length (nodes s1)"
    using Cons.prems(2) len1 by simp
  note ih = Cons.IH[OF rest this]
  have a: "cfr_static_eq s s'" using f ih by (blast intro: cfr_static_eq_trans)
  have b: "static_eq (nodes s ! k) (nodes s' ! k) \<and>
              learn_eq (nodes s ! k) (nodes s' ! k) \<and>
              (k \<notin> set (i # L) \<longrightarrow> strat_eq (nodes s ! k) (nodes s' ! k))"
    if "k < length (nodes s)" for k
    using f ih that len1
    by (auto simp: static_eq_def learn_eq_def strat_eq_def)
  show ?case using a b by blast
qed

lemma cfr_wf_nth: "cfr_wf s \<Longrightarrow> k < length (nodes s) \<Longrightarrow> node_wf (nodes s ! k) \<and> num_actions (nodes s ! k) = cfr_num_actions s"
  by (simp add: cfr_wf_def)

lemma cfr_wf_nodeI:
  assumes "cfr_wf s" "cfr_static_eq s s'"
    and "\<And>k. k < length (nodes s) \<Longrightarrow> node_wf (nodes s' ! k) \<and> num_actions (nodes s' ! k) = num_actions (nodes s ! k)"
  shows "cfr_wf s'"
proof -
  have "node_wf n \<and> num_actions n = cfr_num_actions s'" if "n \<in> set (nodes s')" for n
  proof -
    from that obtain k where k: "k < length (nodes s')" "n = nodes s' ! k"
      by (auto simp: in_set_conv_nth)
    then have k': "k < length (nodes s)" using assms(2) by (simp add: cfr_static_eq_def)
    show ?thesis using assms(3)[OF k'] cfr_wf_nth[OF assms(1) k'] k assms(2)
      by (simp add: cfr_static_eq_def)
  qed
  moreover have "c < length (nodes s')" if "nodes_dict s' key = Some c" for key c
    using that assms(1,2) by (cases key) (auto simp: cfr_wf_def cfr_static_eq_def)
  ultimately show ?thesis unfolding cfr_wf_def by blast
qed

lemma forward_node_wf:
  assumes "forward_node j s = Inr s'" and "j < length (nodes s)" and "cfr_wf s"
  shows "cfr_wf s'"
proof (rule cfr_wf_nodeI[OF assms(3)])
  note f = forward_node_frame[OF assms(1,2)]
  show "cfr_static_eq s s'" using f by simp
  fix k assume k: "k < length (nodes s)"
  have wfk: "node_wf (nodes s ! k)" using cfr_wf_nth[OF assms(3) k] by simp
  have "node_wf (nodes s' ! k)"
  proof (cases "k = j")
    case True
    have "node_wf (snd (getStrategy (nodes s ! j)))"
      using wfk True by (simp add: getStrategy_wf)
    then show ?thesis
      using f k True getStrategy_frame[of "nodes s ! j"]
      by (auto simp: node_wf_def static_eq_def learn_eq_def strat_eq_def)
  next
    case False
    then show ?thesis using f k wfk
      by (auto simp: node_wf_def static_eq_def learn_eq_def strat_eq_def)
  qed
  moreover have "num_actions (nodes s' ! k) = num_actions (nodes s ! k)"
    using f k by (simp add: static_eq_def)
  ultimately show "node_wf (nodes s' ! k) \<and> num_actions (nodes s' ! k) = num_actions (nodes s ! k)"
    by simp
qed

lemma backward_inner_result:
  assumes "backward_inner i strat (s, r) = Inr (s', r')" and "i < length (nodes s)"
  shows "\<exists>s2 node3.
           fold (backward_action i strat) [0..<cfr_num_actions s] (s, r) = (s2, r') \<and>
           foldM (regret_update (if player (nodes s2 ! i) = C_PLAYER1 then pSum2 (nodes s2 ! i)
                                 else pSum1 (nodes s2 ! i)) r')
                 (pos_actions (nodes s2 ! i)) (nodes s2 ! i) = Inr node3 \<and>
           nodes s' ! i = node3\<lparr>T := T node3 + visits node3\<rparr>"
proof -
  obtain s2 r2 where acc: "fold (backward_action i strat) [0..<cfr_num_actions s] (s, r) = (s2, r2)"
    by (cases "fold (backward_action i strat) [0..<cfr_num_actions s] (s, r)")
  have rel: "acc_rel i (s, r) (s2, r2)"
    using backward_actions_acc[of i "(s, r)" strat "[0..<cfr_num_actions s]"] assms(2) acc by simp
  then have len2: "i < length (nodes s2)"
    using assms(2) by (auto simp: acc_rel_def dest: only_node_length)
  let ?node = "nodes s2 ! i"
  let ?cfp = "if player ?node = C_PLAYER1 then pSum2 ?node else pSum1 ?node"
  from assms(1) acc obtain node3 where
    n3: "foldM (regret_update ?cfp r2) (pos_actions ?node) ?node = Inr node3"
    and s': "s' = s2\<lparr>nodes := (nodes s2)[i := node3\<lparr>T := T node3 + visits node3\<rparr>]\<rparr>"
    and r': "r' = r2"
    by (auto simp: backward_inner_def Let_def split: sum.splits)
  have "nodes s' ! i = node3\<lparr>T := T node3 + visits node3\<rparr>"
    using len2 by (simp add: s')
  then show ?thesis using acc n3 r' by blast
qed

lemma backward_node_cases:
  assumes run: "backward_node E i (s, r) = Inr (s', r')" and i: "i < length (nodes s)"
  shows "(game_status E (num_rows s, num_cols s) (board (nodes s ! i)) = Winner (player (nodes s ! i)) \<and>
          r' = r \<and> nodes s' ! i = reset_transients ((snd (getStrategy (nodes s ! i)))\<lparr>u := 1\<rparr>))
       \<or> (game_status E (num_rows s, num_cols s) (board (nodes s ! i)) \<noteq> Winner (player (nodes s ! i)) \<and>
          game_status E (num_rows s, num_cols s) (board (nodes s ! i)) \<noteq> Undecided \<and>
          r' = r \<and> nodes s' ! i = reset_transients ((snd (getStrategy (nodes s ! i)))\<lparr>u := - 1\<rparr>))
       \<or> (game_status E (num_rows s, num_cols s) (board (nodes s ! i)) = Undecided \<and>
          (\<exists>s2 node3.
             fold (backward_action i (fst (getStrategy (nodes s ! i)))) [0..<cfr_num_actions s]
               (s\<lparr>nodes := (nodes s)[i := snd (getStrategy (nodes s ! i))]\<rparr>, r) = (s2, r') \<and>
             foldM (regret_update (if player (nodes s2 ! i) = C_PLAYER1 then pSum2 (nodes s2 ! i)
                                 else pSum1 (nodes s2 ! i)) r')
                 (pos_actions (nodes s2 ! i)) (nodes s2 ! i) = Inr node3 \<and>
             nodes s' ! i = reset_transients (node3\<lparr>T := T node3 + visits node3\<rparr>)))"
proof -
  obtain strat node' where gs: "getStrategy (nodes s ! i) = (strat, node')"
    by (cases "getStrategy (nodes s ! i)")
  let ?s1 = "s\<lparr>nodes := (nodes s)[i := node']\<rparr>"
  have fr: "static_eq (nodes s ! i) node'"
    using getStrategy_frame[of "nodes s ! i"] gs by simp
  have n1: "nodes ?s1 ! i = node'" using i by simp
  have bp: "board node' = board (nodes s ! i)" "player node' = player (nodes s ! i)"
    using fr by (simp_all add: static_eq_def)
  let ?st = "game_status E (num_rows s, num_cols s) (board (nodes s ! i))"
  from run gs obtain s3 where
    br: "(if ?st = Winner (player (nodes s ! i))
          then Inr (update_node i (\<lambda>n. n\<lparr>u := 1\<rparr>) ?s1, r)
          else if ?st \<noteq> Undecided
          then Inr (update_node i (\<lambda>n. n\<lparr>u := - 1\<rparr>) ?s1, r)
          else backward_inner i strat (?s1, r)) = Inr (s3, r')"
    and s': "s' = update_node i reset_transients s3"
    using i by (auto simp: backward_node_def Let_def bp split: sum.splits cong: if_cong)
  show ?thesis
  proof (cases "?st = Winner (player (nodes s ! i))")
    case True
    with br have "s3 = update_node i (\<lambda>n. n\<lparr>u := 1\<rparr>) ?s1" "r' = r" by simp_all
    then show ?thesis using True i gs by (simp add: s' update_node_def)
  next
    case False
    note nw = this
    show ?thesis
    proof (cases "?st \<noteq> Undecided")
      case True
      with br nw have "s3 = update_node i (\<lambda>n. n\<lparr>u := - 1\<rparr>) ?s1" "r' = r" by simp_all
      then show ?thesis using True nw i gs by (simp add: s' update_node_def)
    next
      case False
      with br nw have bi: "backward_inner i strat (?s1, r) = Inr (s3, r')" by simp
      have len1: "i < length (nodes ?s1)" using i by simp
      from backward_inner_result[OF bi len1] obtain s2 node3 where
        *: "fold (backward_action i strat) [0..<cfr_num_actions ?s1] (?s1, r) = (s2, r')"
           "foldM (regret_update (if player (nodes s2 ! i) = C_PLAYER1 then pSum2 (nodes s2 ! i)
                                 else pSum1 (nodes s2 ! i)) r')
                 (pos_actions (nodes s2 ! i)) (nodes s2 ! i) = Inr node3"
           "nodes s3 ! i = node3\<lparr>T := T node3 + visits node3\<rparr>"
        by blast
      have len3: "i < length (nodes s3)"
        using backward_inner_frame[OF bi len1] len1 by (auto dest: only_node_length)
      have "nodes s' ! i = reset_transients (node3\<lparr>T := T node3 + visits node3\<rparr>)"
        using len3 * by (simp add: s' update_node_def)
      then show ?thesis using False * gs by auto
    qed
  qed
qed

text \<open>The loop of regret updates over distinct in-range actions.\<close>

lemma regret_updates_formula:
  assumes "foldM (regret_update cfp regret) as n = Inr m" and "distinct as"
    and "\<forall>a \<in> set as. a < length (regretSum n)"
  shows "\<forall>a < length (regretSum n). regretSum m ! a =
           (if a \<in> set as
            then (real_of_int (T n) * regretSum n ! a +
                  real_of_int (visits n) * cfp * (regret ! a - u n)) / real_of_int (T n + visits n)
            else regretSum n ! a)"
  using assms
proof (induction as arbitrary: n)
  case Nil
  then show ?case by simp
next
  case (Cons a as)
  from Cons.prems(1) obtain n1 where
    step: "regret_update cfp regret a n = Inr n1" and rest: "foldM (regret_update cfp regret) as n1 = Inr m"
    by (auto split: sum.splits)
  have n1: "n1 = n\<lparr>regretSum := (regretSum n)[a := (real_of_int (T n) * regretSum n ! a +
                  real_of_int (visits n) * cfp * (regret ! a - u n)) / real_of_int (T n + visits n)]\<rparr>"
    using step by (auto simp: regret_update_def Let_def split: if_splits)
  have "\<forall>b \<in> set as. b < length (regretSum n1)" using Cons.prems(3) by (simp add: n1)
  from Cons.IH[OF rest _ this] Cons.prems(2)
  have ih: "\<forall>b < length (regretSum n1). regretSum m ! b =
           (if b \<in> set as
            then (real_of_int (T n1) * regretSum n1 ! b +
                  real_of_int (visits n1) * cfp * (regret ! b - u n1)) / real_of_int (T n1 + visits n1)
            else regretSum n1 ! b)" by simp
  show ?case
  proof (intro allI impI)
    fix b assume b: "b < length (regretSum n)"
    have a: "a < length (regretSum n)" "a \<notin> set as" using Cons.prems by simp_all
    show "regretSum m ! b =
           (if b \<in> set (a # as)
            then (real_of_int (T n) * regretSum n ! b +
                  real_of_int (visits n) * cfp * (regret ! b - u n)) / real_of_int (T n + visits n)
            else regretSum n ! b)"
      using ih b a by (cases "b = a") (auto simp: n1)
  qed
qed

lemma regret_updates_total:
  assumes "T n + visits n \<noteq> 0"
  shows "\<exists>m. foldM (regret_update cfp regret) as n = Inr m"
proof -
  have "\<exists>m. foldM (regret_update cfp regret) as n = Inr m \<and> (T m + visits m \<noteq> 0)"
    by (rule foldM_total[where P="\<lambda>m. T m + visits m \<noteq> 0"])
       (use assms in \<open>auto simp: regret_update_def Let_def\<close>)
  then show ?thesis by blast
qed

lemma regret_updates_nonzero:
  assumes "foldM (regret_update cfp regret) as n = Inr m" and "as \<noteq> []"
  shows "T n + visits n \<noteq> 0"
  using assms by (cases as) (auto simp: regret_update_def Let_def split: sum.splits if_splits)

lemma upt_split3: "i < n \<Longrightarrow> [0..<n] = [0..<i] @ [i] @ [Suc i..<n]"
  by (metis append_Cons append_Nil le_add1 le_add_same_cancel1 less_imp_add_positive upt_add_eq_append upt_rec)

lemma backward_pass_split:
  assumes "backward_pass E (s, r) = Inr (s', r')" and "i < length (nodes s)"
  shows "\<exists>s2 r2 s3 r3.
           foldM (backward_node E) (rev [Suc i..<length (nodes s)]) (s, r) = Inr (s2, r2) \<and>
           nodes s2 ! i = nodes s ! i \<and> cfr_static_eq s s2 \<and>
           backward_node E i (s2, r2) = Inr (s3, r3) \<and>
           foldM (backward_node E) (rev [0..<i]) (s3, r3) = Inr (s', r') \<and>
           nodes s' ! i = nodes s3 ! i \<and> cfr_static_eq s3 s'"
proof -
  let ?n = "length (nodes s)"
  have sp: "rev [0..<?n] = rev [Suc i..<?n] @ [i] @ rev [0..<i]"
    using upt_split3[OF assms(2)] by simp
  from assms(1) have run: "foldM (backward_node E) (rev [Suc i..<?n] @ [i] @ rev [0..<i]) (s, r) = Inr (s', r')"
    by (simp add: backward_pass_def sp)
  then obtain s2 r2 where
    a: "foldM (backward_node E) (rev [Suc i..<?n]) (s, r) = Inr (s2, r2)" and
    b: "foldM (backward_node E) ([i] @ rev [0..<i]) (s2, r2) = Inr (s', r')"
    by (auto simp: foldM_append split: sum.splits)
  from b obtain s3 r3 where
    c: "backward_node E i (s2, r2) = Inr (s3, r3)" and
    d: "foldM (backward_node E) (rev [0..<i]) (s3, r3) = Inr (s', r')"
    by (auto split: sum.splits)
  have fa: "cfr_static_eq s s2 \<and> nodes s2 ! i = nodes s ! i"
    using backward_nodes_frame[OF a] by auto
  then have len2: "i < length (nodes s2)" using assms(2) by (simp add: cfr_static_eq_def)
  have len3: "length (nodes s3) = length (nodes s2)"
    using backward_node_frame[OF c len2] by (auto dest: only_node_length)
  have fd: "cfr_static_eq s3 s' \<and> nodes s' ! i = nodes s3 ! i"
    using backward_nodes_frame[OF d] len2 len3 by auto
  show ?thesis using a fa c d fd by blast
qed

lemma train_iteration_static:
  assumes "train_iteration E (s, r) = Inr (s', r')"
  shows "cfr_static_eq s s' \<and> (\<forall>k < length (nodes s). static_eq (nodes s ! k) (nodes s' ! k)) \<and>
         length r' = length r"
proof -
  from assms obtain s1 where
    f: "forward_pass s = Inr s1" and b: "backward_pass E (s1, r) = Inr (s', r')"
    by (auto simp: train_iteration_def split: sum.splits)
  have ff: "cfr_static_eq s s1 \<and> (\<forall>k < length (nodes s). static_eq (nodes s ! k) (nodes s1 ! k))"
    using forward_nodes_frame[of "[0..<length (nodes s)]" s s1] f by (simp add: forward_pass_def)
  have bf: "cfr_static_eq s1 s' \<and> (\<forall>k. static_eq (nodes s1 ! k) (nodes s' ! k)) \<and> length r' = length r"
    using backward_nodes_frame[of E "rev [0..<length (nodes s1)]" s1 r s' r'] b
    by (simp add: backward_pass_def)
  show ?thesis using ff bf by (blast intro: cfr_static_eq_trans static_eq_trans)
qed

lemma train_iterations_static:
  assumes "train_iterations E k (s, r) = Inr (s', r')"
  shows "cfr_static_eq s s' \<and> (\<forall>j < length (nodes s). static_eq (nodes s ! j) (nodes s' ! j)) \<and>
         length r' = length r"
  using assms
proof (induction k arbitrary: s' r')
  case 0
  then show ?case by simp
next
  case (Suc k)
  from Suc.prems obtain s1 r1 where
    a: "train_iterations E k (s, r) = Inr (s1, r1)" and b: "train_iteration E (s1, r1) = Inr (s', r')"
    by (auto split: sum.splits)
  note ih = Suc.IH[OF a]
  note st = train_iteration_static[OF b]
  have len: "length (nodes s1) = length (nodes s)" using ih by (simp add: cfr_static_eq_def)
  show ?case using ih st len by (auto intro: cfr_static_eq_trans static_eq_trans)
qed

lemma node_wf_pos_actions:
  assumes "node_wf n"
  shows "distinct (pos_actions n) \<and> (\<forall>a \<in> set (pos_actions n). a < num_actions n \<and> board n ! a = NEUTRAL)"
  using assms by (auto simp: node_wf_def)

lemma backward_node_undecided:
  assumes run: "backward_node E i (s, r) = Inr (s', r')"
    and i: "i < length (nodes s)"
    and und: "game_status E (num_rows s, num_cols s) (board (nodes s ! i)) = Undecided"
  shows "\<exists>s2 node2 node3.
           fold (backward_action i (fst (getStrategy (nodes s ! i)))) [0..<cfr_num_actions s]
               (s\<lparr>nodes := (nodes s)[i := snd (getStrategy (nodes s ! i))]\<rparr>, r) = (s2, r') \<and>
           node2 = nodes s2 ! i \<and>
           static_eq (nodes s ! i) node2 \<and> reach_eq (nodes s ! i) node2 \<and>
           regretSum node2 = regretSum (nodes s ! i) \<and> T node2 = T (nodes s ! i) \<and>
           strat_eq (snd (getStrategy (nodes s ! i))) node2 \<and>
           foldM (regret_update (if player node2 = C_PLAYER1 then pSum2 node2 else pSum1 node2) r')
                 (pos_actions node2) node2 = Inr node3 \<and>
           nodes s' ! i = reset_transients (node3\<lparr>T := T node3 + visits node3\<rparr>)"
proof -
  let ?n = "nodes s ! i"
  let ?s1 = "s\<lparr>nodes := (nodes s)[i := snd (getStrategy ?n)]\<rparr>"
  from backward_node_cases[OF run i] und obtain s2 node3 where
    *: "fold (backward_action i (fst (getStrategy ?n))) [0..<cfr_num_actions s] (?s1, r) = (s2, r')"
       "foldM (regret_update (if player (nodes s2 ! i) = C_PLAYER1 then pSum2 (nodes s2 ! i)
                                 else pSum1 (nodes s2 ! i)) r')
                 (pos_actions (nodes s2 ! i)) (nodes s2 ! i) = Inr node3"
       "nodes s' ! i = reset_transients (node3\<lparr>T := T node3 + visits node3\<rparr>)"
    by auto
  have i1: "i < length (nodes (fst (?s1, r)))" using i by simp
  have rel: "acc_rel i (?s1, r) (s2, r')"
    using backward_actions_acc[OF i1, of "fst (getStrategy ?n)" "[0..<cfr_num_actions s]"] *(1)
    by simp
  have n1: "nodes ?s1 ! i = snd (getStrategy ?n)" using i by simp
  note fr = getStrategy_frame[of ?n]
  have "static_eq ?n (nodes s2 ! i) \<and> reach_eq ?n (nodes s2 ! i) \<and>
        regretSum (nodes s2 ! i) = regretSum ?n \<and> T (nodes s2 ! i) = T ?n \<and>
        strat_eq (snd (getStrategy ?n)) (nodes s2 ! i)"
    using rel fr n1
    by (auto simp: acc_rel_def only_node_def static_eq_def reach_eq_def learn_eq_def)
  then show ?thesis using * by blast
qed

text \<open>
  Claim C1. When the backward pass processes a node whose board the rule engine calls
  undecided, then for every action \<^verbatim>\<open>a\<close> of the node's legal-action list the new
  \<^verbatim>\<open>regretSum[a]\<close> is \<^verbatim>\<open>(T*regretSum[a] + visits*cfp*(regret[a]-u)) / (T+visits)\<close>,
  where \<^verbatim>\<open>T\<close>, \<^verbatim>\<open>visits\<close> and the old \<^verbatim>\<open>regretSum\<close> are the node's values when its
  processing starts, \<^verbatim>\<open>cfp\<close> is \<^verbatim>\<open>pSum2\<close> for a node of player 1 and \<^verbatim>\<open>pSum1\<close>
  otherwise, and \<^verbatim>\<open>regret\<close> and \<^verbatim>\<open>u\<close> are the scratch list and the utility the
  accumulation loop left; afterwards \<^verbatim>\<open>T\<close> has grown by \<^verbatim>\<open>visits\<close>. The two
  numeric updates of the specification are instances.
\<close>

theorem regret_sum_update:
  assumes "backward_node E i (self, regret) = Inr (self', regret')"
    and "i < length (nodes self)" and "cfr_wf self" and "length regret = cfr_num_actions self"
    and "game_status E (num_rows self, num_cols self) (board (nodes self ! i)) = Undecided"
  shows "(\<forall>a \<in> set (pos_actions (nodes self ! i)).
            regretSum (nodes self' ! i) ! a =
              (real_of_int (T (nodes self ! i)) * regretSum (nodes self ! i) ! a +
               real_of_int (visits (nodes self ! i)) *
               (if player (nodes self ! i) = C_PLAYER1 then pSum2 (nodes self ! i)
                else pSum1 (nodes self ! i)) *
               (regret' ! a - u (nodes self' ! i)))
              / real_of_int (T (nodes self ! i) + visits (nodes self ! i))) \<and>
         T (nodes self' ! i) = T (nodes self ! i) + visits (nodes self ! i) \<and>
         regret_update 1 [3] 0 ((Node_init [NEUTRAL] [] C_PLAYER1 0)\<lparr>T := 0, visits := 2\<rparr>) =
           Inr ((Node_init [NEUTRAL] [] C_PLAYER1 0)\<lparr>T := 0, visits := 2, regretSum := [3]\<rparr>) \<and>
         regret_update 1 [1] 0
             ((Node_init [NEUTRAL] [] C_PLAYER1 0)\<lparr>T := 2, visits := 2, regretSum := [3]\<rparr>) =
           Inr ((Node_init [NEUTRAL] [] C_PLAYER1 0)\<lparr>T := 2, visits := 2, regretSum := [2]\<rparr>)"
proof -
  let ?n = "nodes self ! i"
  have wfn: "node_wf ?n" using cfr_wf_nth[OF assms(3,2)] by simp
  from backward_node_undecided[OF assms(1,2,5)] obtain node2 node3 where
    st: "static_eq ?n node2" and re: "reach_eq ?n node2" and
    rs: "regretSum node2 = regretSum ?n" and t2: "T node2 = T ?n" and
    upd: "foldM (regret_update (if player node2 = C_PLAYER1 then pSum2 node2 else pSum1 node2) regret')
                 (pos_actions node2) node2 = Inr node3" and
    fin: "nodes self' ! i = reset_transients (node3\<lparr>T := T node3 + visits node3\<rparr>)"
    by blast
  note pa = node_wf_pos_actions[OF wfn]
  have len: "length (regretSum ?n) = num_actions ?n" using wfn by (simp add: node_wf_def)
  have pos: "pos_actions node2 = pos_actions ?n" "player node2 = player ?n"
    using st by (simp_all add: static_eq_def)
  have rch: "visits node2 = visits ?n" "pSum1 node2 = pSum1 ?n" "pSum2 node2 = pSum2 ?n"
    using re by (simp_all add: reach_eq_def)
  have d: "distinct (pos_actions node2)" using pa pos by simp
  have r: "\<forall>a \<in> set (pos_actions node2). a < length (regretSum node2)"
    using pa pos rs len by simp
  note f = regret_updates_formula[OF upd d r]
  note ur = regret_updates_rel[OF upd]
  have u3: "u node3 = u node2" "T node3 = T node2" "visits node3 = visits node2"
    using ur by (simp_all add: upd_rel_def reach_eq_def)
  have fu: "u (nodes self' ! i) = u node2" "regretSum (nodes self' ! i) = regretSum node3"
    "T (nodes self' ! i) = T ?n + visits ?n"
    using fin u3 t2 rch by (simp_all add: reset_transients_def)
  have main: "\<forall>a \<in> set (pos_actions ?n).
            regretSum (nodes self' ! i) ! a =
              (real_of_int (T ?n) * regretSum ?n ! a +
               real_of_int (visits ?n) *
               (if player ?n = C_PLAYER1 then pSum2 ?n else pSum1 ?n) *
               (regret' ! a - u (nodes self' ! i)))
              / real_of_int (T ?n + visits ?n)"
  proof
    fix a assume a: "a \<in> set (pos_actions ?n)"
    then have "a < length (regretSum node2)" "a \<in> set (pos_actions node2)" using r pos by simp_all
    then show "regretSum (nodes self' ! i) ! a =
              (real_of_int (T ?n) * regretSum ?n ! a +
               real_of_int (visits ?n) *
               (if player ?n = C_PLAYER1 then pSum2 ?n else pSum1 ?n) *
               (regret' ! a - u (nodes self' ! i)))
              / real_of_int (T ?n + visits ?n)"
      using f fu rs t2 rch pos by simp
  qed
  have ex1: "regret_update 1 [3] 0 ((Node_init [NEUTRAL] [] C_PLAYER1 0)\<lparr>T := 0, visits := 2\<rparr>) =
           Inr ((Node_init [NEUTRAL] [] C_PLAYER1 0)\<lparr>T := 0, visits := 2, regretSum := [3]\<rparr>)"
    by (simp add: regret_update_def Node_init_def)
  have ex2: "regret_update 1 [1] 0
             ((Node_init [NEUTRAL] [] C_PLAYER1 0)\<lparr>T := 2, visits := 2, regretSum := [3]\<rparr>) =
           Inr ((Node_init [NEUTRAL] [] C_PLAYER1 0)\<lparr>T := 2, visits := 2, regretSum := [2]\<rparr>)"
    by (simp add: regret_update_def Node_init_def)
  show ?thesis using main fu(3) ex1 ex2 by blast
qed

theorem regret_sum_update_witness:
  "\<exists>s' r'. backward_node hex_line 0
       (cfr_1x1\<lparr>nodes := [Node_init [NEUTRAL] [] C_PLAYER1 0,
                           (Node_init [Stone C_PLAYER1] [0] C_PLAYER1 0)\<lparr>u := 1\<rparr>]\<rparr>, [2])
       = Inr (s', r') \<and> r' = [3] \<and> u (nodes s' ! 0) = 1 \<and>
     regretSum (nodes s' ! 0) ! 0 = (0 * 0 + 1 * 1 * (3 - 1)) / (0 + 1) \<and> T (nodes s' ! 0) = 1"
proof -
  let ?S = "cfr_1x1\<lparr>nodes := [Node_init [NEUTRAL] [] C_PLAYER1 0,
                           (Node_init [Stone C_PLAYER1] [0] C_PLAYER1 0)\<lparr>u := 1\<rparr>]\<rparr>"
  obtain s' r' where run: "backward_node hex_line 0 (?S, [2]) = Inr (s', r')"
    and vals: "r' = [3]" "u (nodes s' ! 0) = 1"
    by (simp add: train_defs)
  have i: "0 < length (nodes ?S)" by simp
  have wf: "cfr_wf ?S"
    by (auto simp: cfr_wf_def cfr_1x1_def node_wf_def Node_init_def split: if_splits)
  have r: "length [2::real] = cfr_num_actions ?S" by (simp add: cfr_1x1_def)
  have und: "game_status hex_line (num_rows ?S, num_cols ?S) (board (nodes ?S ! 0)) = Undecided"
    by (simp add: cfr_1x1_def hex_line_def line_winner_def Node_init_def)
  have n: "pos_actions (nodes ?S ! 0) = [0]" "T (nodes ?S ! 0) = 0" "visits (nodes ?S ! 0) = 1"
    "player (nodes ?S ! 0) = C_PLAYER1" "pSum2 (nodes ?S ! 0) = 1" "regretSum (nodes ?S ! 0) = [0]"
    by (simp_all add: Node_init_def)
  from regret_sum_update[OF run i wf r und]
  have "regretSum (nodes s' ! 0) ! 0 = (0 * 0 + 1 * 1 * (3 - 1)) / (0 + 1) \<and> T (nodes s' ! 0) = 1"
    unfolding n vals by simp
  then show ?thesis using run vals by blast
qed

lemma backward_inner_total:
  assumes "i < length (nodes s)" and "T (nodes s ! i) + visits (nodes s ! i) \<noteq> 0"
  shows "\<exists>p. backward_inner i strat (s, r) = Inr p"
proof -
  obtain s2 r2 where acc: "fold (backward_action i strat) [0..<cfr_num_actions s] (s, r) = (s2, r2)"
    by (cases "fold (backward_action i strat) [0..<cfr_num_actions s] (s, r)")
  have rel: "acc_rel i (s, r) (s2, r2)"
    using backward_actions_acc[of i "(s, r)" strat "[0..<cfr_num_actions s]"] assms(1) acc by simp
  then have "T (nodes s2 ! i) + visits (nodes s2 ! i) \<noteq> 0"
    using assms(2) by (simp add: acc_rel_def reach_eq_def)
  from regret_updates_total[OF this] obtain node3 where
    "foldM (regret_update (if player (nodes s2 ! i) = C_PLAYER1 then pSum2 (nodes s2 ! i)
                           else pSum1 (nodes s2 ! i)) r2)
           (pos_actions (nodes s2 ! i)) (nodes s2 ! i) = Inr node3"
    by blast
  then show ?thesis by (simp add: backward_inner_def acc Let_def)
qed

lemma backward_node_total:
  assumes "i < length (nodes s)"
    and "game_status E (num_rows s, num_cols s) (board (nodes s ! i)) = Undecided \<longrightarrow>
         T (nodes s ! i) + visits (nodes s ! i) \<noteq> 0"
  shows "\<exists>p. backward_node E i (s, r) = Inr p"
proof -
  obtain strat node' where gs: "getStrategy (nodes s ! i) = (strat, node')"
    by (cases "getStrategy (nodes s ! i)")
  let ?s1 = "s\<lparr>nodes := (nodes s)[i := node']\<rparr>"
  have fr: "static_eq (nodes s ! i) node' \<and> learn_eq (nodes s ! i) node' \<and> reach_eq (nodes s ! i) node'"
    using getStrategy_frame[of "nodes s ! i"] gs by simp
  have n1: "nodes ?s1 ! i = node'" using assms(1) by simp
  have bp: "board node' = board (nodes s ! i)" "player node' = player (nodes s ! i)"
    "T node' = T (nodes s ! i)" "visits node' = visits (nodes s ! i)"
    using fr by (simp_all add: static_eq_def learn_eq_def reach_eq_def)
  let ?st = "game_status E (num_rows s, num_cols s) (board (nodes s ! i))"
  show ?thesis
  proof (cases "?st = Undecided")
    case True
    have "i < length (nodes ?s1)" using assms(1) by simp
    moreover have "T (nodes ?s1 ! i) + visits (nodes ?s1 ! i) \<noteq> 0"
      using assms(2) True n1 bp by simp
    ultimately obtain p where "backward_inner i strat (?s1, r) = Inr p"
      using backward_inner_total by blast
    then show ?thesis
      using True assms(1) by (cases p) (simp add: backward_node_def gs Let_def bp)
  next
    case False
    then show ?thesis
      using assms(1) by (simp add: backward_node_def gs Let_def bp)
  qed
qed

lemma backward_node_wf_node:
  assumes run: "backward_node E i (s, r) = Inr (s', r')"
    and i: "i < length (nodes s)" and wf: "node_wf (nodes s ! i)"
  shows "node_wf (nodes s' ! i)"
proof -
  let ?n = "nodes s ! i"
  have w1: "node_wf (snd (getStrategy ?n))" by (rule getStrategy_wf[OF wf])
  show ?thesis
  proof (cases "game_status E (num_rows s, num_cols s) (board ?n) = Undecided")
    case True
    from backward_node_undecided[OF run i True] obtain node2 node3 where
      st: "static_eq ?n node2" and rs: "regretSum node2 = regretSum ?n" and
      se: "strat_eq (snd (getStrategy ?n)) node2" and
      upd: "foldM (regret_update (if player node2 = C_PLAYER1 then pSum2 node2 else pSum1 node2) r')
                 (pos_actions node2) node2 = Inr node3" and
      fin: "nodes s' ! i = reset_transients (node3\<lparr>T := T node3 + visits node3\<rparr>)"
      by blast
    note ur = regret_updates_rel[OF upd]
    have "node_wf node2"
      using w1 wf st rs se getStrategy_frame[of ?n]
      by (simp add: node_wf_def static_eq_def strat_eq_def)
    then have "node_wf node3"
      using ur by (simp add: node_wf_def upd_rel_def static_eq_def strat_eq_def)
    then show ?thesis by (simp add: fin node_wf_def reset_transients_def)
  next
    case False
    then show ?thesis
      using backward_node_cases[OF run i] w1
      by (auto simp: node_wf_def reset_transients_def)
  qed
qed

lemma backward_node_wf:
  assumes run: "backward_node E i (s, r) = Inr (s', r')"
    and i: "i < length (nodes s)" and wf: "cfr_wf s"
  shows "cfr_wf s'"
proof (rule cfr_wf_nodeI[OF wf])
  note f = backward_node_frame[OF run i]
  show "cfr_static_eq s s'" using f by (simp add: only_node_def)
  fix k assume k: "k < length (nodes s)"
  show "node_wf (nodes s' ! k) \<and> num_actions (nodes s' ! k) = num_actions (nodes s ! k)"
  proof (cases "k = i")
    case True
    then show ?thesis
      using backward_node_wf_node[OF run i] cfr_wf_nth[OF wf i] f
      by (simp add: only_node_def static_eq_def)
  next
    case False
    then show ?thesis using f cfr_wf_nth[OF wf k] by (simp add: only_node_def)
  qed
qed

lemma backward_node_denominators:
  assumes run: "backward_node E i (s, r) = Inr (s', r')"
    and i: "i < length (nodes s)" and ok: "denominators_ok E s"
  shows "denominators_ok E s'"
proof -
  let ?n = "nodes s ! i"
  note f = backward_node_frame[OF run i]
  have dims: "num_rows s' = num_rows s" "num_cols s' = num_cols s" "length (nodes s') = length (nodes s)"
    using f by (simp_all add: only_node_def cfr_static_eq_def)
  have nin: "?n \<in> set (nodes s)" using i by simp
  have q: "0 \<le> visits (nodes s' ! k) \<and> 0 \<le> T (nodes s' ! k) \<and>
        (game_status E (num_rows s, num_cols s) (board (nodes s' ! k)) = Undecided \<longrightarrow>
         0 < T (nodes s' ! k) + visits (nodes s' ! k))" if k: "k < length (nodes s)" for k
  proof (cases "k = i")
    case False
    then have "nodes s' ! k = nodes s ! k" using f by (simp add: only_node_def)
    moreover have "nodes s ! k \<in> set (nodes s)" using k by simp
    ultimately show ?thesis using ok by (simp add: denominators_ok_def)
  next
    case True
    have bd: "board (nodes s' ! i) = board ?n" using f by (simp add: only_node_def static_eq_def)
    have v0: "visits (nodes s' ! i) = 0" using f by simp
    show ?thesis
    proof (cases "game_status E (num_rows s, num_cols s) (board ?n) = Undecided")
      case und: True
      from backward_node_undecided[OF run i und] obtain node2 node3 where
        re: "reach_eq ?n node2" and t2: "T node2 = T ?n" and
        upd: "foldM (regret_update (if player node2 = C_PLAYER1 then pSum2 node2 else pSum1 node2) r')
                 (pos_actions node2) node2 = Inr node3" and
        fin: "nodes s' ! i = reset_transients (node3\<lparr>T := T node3 + visits node3\<rparr>)"
        by blast
      note ur = regret_updates_rel[OF upd]
      have "T (nodes s' ! i) = T ?n + visits ?n"
        using fin ur re t2 by (simp add: reset_transients_def upd_rel_def reach_eq_def)
      moreover have "0 < T ?n + visits ?n" using ok nin und by (simp add: denominators_ok_def)
      ultimately show ?thesis using True v0 by simp
    next
      case dec: False
      have "T (nodes s' ! i) = T ?n"
        using backward_node_cases[OF run i] dec getStrategy_frame[of ?n]
        by (auto simp: reset_transients_def learn_eq_def)
      moreover have "0 \<le> T ?n" using ok nin by (simp add: denominators_ok_def)
      ultimately show ?thesis using True v0 bd dec by simp
    qed
  qed
  show ?thesis
    unfolding denominators_ok_def dims
  proof
    fix n assume "n \<in> set (nodes s')"
    then obtain k where "k < length (nodes s)" "n = nodes s' ! k"
      using dims by (auto simp: in_set_conv_nth)
    then show "0 \<le> visits n \<and> 0 \<le> T n \<and>
         (game_status E (num_rows s, num_cols s) (board n) = Undecided \<longrightarrow> 0 < T n + visits n)"
      using q by simp
  qed
qed

lemma fwd_rel_wf:
  assumes "fwd_rel s s'" and "cfr_wf s"
  shows "cfr_wf s'"
proof (rule cfr_wf_nodeI[OF assms(2)])
  show "cfr_static_eq s s'" using assms(1) by (simp add: fwd_rel_def)
  fix k assume k: "k < length (nodes s)"
  then show "node_wf (nodes s' ! k) \<and> num_actions (nodes s' ! k) = num_actions (nodes s ! k)"
    using assms(1) cfr_wf_nth[OF assms(2) k]
    by (simp add: fwd_rel_def node_wf_def static_eq_def learn_eq_def strat_eq_def)
qed

lemma denominators_ok_update:
  assumes "denominators_ok E s"
    and "c < length (nodes s) \<Longrightarrow>
           visits (nodes s ! c) \<le> visits (f (nodes s ! c)) \<and>
           T (f (nodes s ! c)) = T (nodes s ! c) \<and> board (f (nodes s ! c)) = board (nodes s ! c)"
  shows "denominators_ok E (update_node c f s)"
proof (cases "c < length (nodes s)")
  case False
  then show ?thesis using assms(1) by (simp add: update_node_def denominators_ok_def list_update_beyond)
next
  case True
  have m: "nodes s ! c \<in> set (nodes s)" using True by simp
  show ?thesis
    unfolding denominators_ok_def
  proof
    fix n assume "n \<in> set (nodes (update_node c f s))"
    then have "n = f (nodes s ! c) \<or> n \<in> set (nodes s)"
      using set_update_subset_insert[of "nodes s" c "f (nodes s ! c)"]
      by (auto simp: update_node_def)
    then show "0 \<le> visits n \<and> 0 \<le> T n \<and>
         (game_status E (num_rows (update_node c f s), num_cols (update_node c f s)) (board n) = Undecided
            \<longrightarrow> 0 < T n + visits n)"
    proof
      assume n: "n = f (nodes s ! c)"
      have "0 \<le> visits (nodes s ! c) \<and> 0 \<le> T (nodes s ! c) \<and>
         (game_status E (num_rows s, num_cols s) (board (nodes s ! c)) = Undecided
            \<longrightarrow> 0 < T (nodes s ! c) + visits (nodes s ! c))"
        using assms(1) m by (simp add: denominators_ok_def)
      then show ?thesis using assms(2)[OF True] n by (auto simp: update_node_def)
    next
      assume "n \<in> set (nodes s)"
      then show ?thesis using assms(1) by (simp add: denominators_ok_def update_node_def)
    qed
  qed
qed

lemma update_node_length [simp]: "length (nodes (update_node c f s)) = length (nodes s)"
  by (simp add: update_node_def)

lemma forward_child_denominators:
  assumes "denominators_ok E s" and "i < length (nodes s)"
  shows "denominators_ok E (forward_child i strat a c s)"
proof (cases "nodes_dict s c")
  case None
  then show ?thesis using assms by (simp add: forward_child_def)
next
  case (Some j)
  have v: "0 \<le> visits (nodes s ! i)" using assms by (simp add: denominators_ok_def)
  let ?s1 = "update_node j (\<lambda>n. n\<lparr>visits := visits n + visits (nodes s ! i)\<rparr>) s"
  have 1: "denominators_ok E ?s1"
    by (rule denominators_ok_update[OF assms(1)]) (use v in simp)
  have 2: "denominators_ok E (update_node j (\<lambda>n. n\<lparr>pSum1 := pSum1 n + y\<rparr>) t)"
    "denominators_ok E (update_node j (\<lambda>n. n\<lparr>pSum2 := pSum2 n + y\<rparr>) t)"
    if "denominators_ok E t" for t y
    by (rule denominators_ok_update[OF that]; simp)+
  show ?thesis
    unfolding forward_child_def Some option.case Let_def
    by (intro 2 1)
qed

lemma forward_children_inv:
  assumes "cfr_wf s" "denominators_ok E s" "i < length (nodes s)"
  shows "cfr_wf (fold (forward_child i strat a) cs s) \<and>
         denominators_ok E (fold (forward_child i strat a) cs s)"
proof -
  have "fwd_rel s (fold (forward_child i strat a) cs s)" by (rule forward_children_rel)
  then have w: "cfr_wf (fold (forward_child i strat a) cs s)" by (rule fwd_rel_wf[OF _ assms(1)])
  have "denominators_ok E (fold (forward_child i strat a) cs s) \<and>
        i < length (nodes (fold (forward_child i strat a) cs s))"
  proof (rule fold_invariant[where P="\<lambda>t. denominators_ok E t \<and> i < length (nodes t)"])
    show "denominators_ok E s \<and> i < length (nodes s)" using assms by simp
  next
    fix x t assume "denominators_ok E t \<and> i < length (nodes t)"
    moreover have "length (nodes (forward_child i strat a x t)) = length (nodes t)"
      using forward_child_rel[of t i strat a x] by (simp add: fwd_rel_def cfr_static_eq_def)
    ultimately show "denominators_ok E (forward_child i strat a x t) \<and>
        i < length (nodes (forward_child i strat a x t))"
      by (simp add: forward_child_denominators)
  qed
  then show ?thesis using w by simp
qed

lemma successors_Some:
  assumes "node_wf n" and "a \<in> set (pos_actions n)"
  shows "\<exists>cs. successors n a = Some cs"
proof -
  have "board n ! a = NEUTRAL" using node_wf_pos_actions[OF assms(1)] assms(2) by simp
  then show ?thesis by (simp add: successors_def add_stone_def Let_def)
qed

lemma forward_node_inv:
  assumes wf: "cfr_wf s" and ok: "denominators_ok E s" and j: "j < length (nodes s)"
  shows "\<exists>s'. forward_node j s = Inr s' \<and> cfr_wf s' \<and> denominators_ok E s' \<and>
              length (nodes s') = length (nodes s)"
proof -
  let ?n = "nodes s ! j"
  obtain strat node' where gs: "getStrategy ?n = (strat, node')"
    by (cases "getStrategy ?n")
  let ?s1 = "s\<lparr>nodes := (nodes s)[j := node']\<rparr>"
  have s1: "?s1 = update_node j (\<lambda>_. node') s" by (simp add: update_node_def)
  have fr: "static_eq ?n node' \<and> learn_eq ?n node' \<and> reach_eq ?n node'"
    using getStrategy_frame[of ?n] gs by simp
  have wn: "node_wf ?n" using cfr_wf_nth[OF wf j] by simp
  have wn': "node_wf node'" using getStrategy_wf[OF wn] gs by simp
  have wf1: "cfr_wf ?s1"
  proof (rule cfr_wf_nodeI[OF wf])
    show "cfr_static_eq s ?s1" by (simp add: cfr_static_eq_def)
    fix k assume k: "k < length (nodes s)"
    show "node_wf (nodes ?s1 ! k) \<and> num_actions (nodes ?s1 ! k) = num_actions (nodes s ! k)"
      using wn' fr cfr_wf_nth[OF wf k] k by (cases "k = j") (simp_all add: static_eq_def)
  qed
  have ok1: "denominators_ok E ?s1"
    unfolding s1 by (rule denominators_ok_update[OF ok]) (use fr in \<open>simp add: static_eq_def learn_eq_def reach_eq_def\<close>)
  have n1: "nodes ?s1 ! j = node'" using j by simp
  have "\<exists>s'. foldM (forward_action j strat) (pos_actions node') ?s1 = Inr s' \<and>
         (cfr_wf s' \<and> denominators_ok E s' \<and> fwd_rel ?s1 s')"
  proof (rule foldM_total[where P="\<lambda>t. cfr_wf t \<and> denominators_ok E t \<and> fwd_rel ?s1 t"])
    show "cfr_wf ?s1 \<and> denominators_ok E ?s1 \<and> fwd_rel ?s1 ?s1" using wf1 ok1 by simp
  next
    fix a t assume a: "a \<in> set (pos_actions node')"
      and t: "cfr_wf t \<and> denominators_ok E t \<and> fwd_rel ?s1 t"
    have jt: "j < length (nodes t)" using t j by (simp add: fwd_rel_def cfr_static_eq_def)
    have st: "static_eq node' (nodes t ! j)" using t j n1 by (auto simp: fwd_rel_def)
    have "node_wf (nodes t ! j)" using cfr_wf_nth[OF _ jt] t by simp
    moreover have "a \<in> set (pos_actions (nodes t ! j))" using a st by (simp add: static_eq_def)
    ultimately obtain cs where cs: "successors (nodes t ! j) a = Some cs"
      using successors_Some by blast
    let ?t' = "fold (forward_child j strat a) cs t"
    have "forward_action j strat a t = Inr ?t'" by (simp add: forward_action_def cs)
    moreover have "cfr_wf ?t' \<and> denominators_ok E ?t'"
      using forward_children_inv[of t E j] t jt by simp
    moreover have "fwd_rel ?s1 ?t'"
      using t forward_children_rel[of t j strat a cs] by (blast intro: fwd_rel_trans)
    ultimately show "\<exists>s'. forward_action j strat a t = Inr s' \<and>
         (cfr_wf s' \<and> denominators_ok E s' \<and> fwd_rel ?s1 s')" by blast
  qed
  then obtain s' where
    run: "foldM (forward_action j strat) (pos_actions node') ?s1 = Inr s'" and
    inv: "cfr_wf s'" "denominators_ok E s'" "fwd_rel ?s1 s'" by blast
  have "forward_node j s = Inr s'"
    using run n1 by (simp add: forward_node_def gs Let_def)
  moreover have "length (nodes s') = length (nodes s)"
    using inv(3) by (simp add: fwd_rel_def cfr_static_eq_def)
  ultimately show ?thesis using inv by blast
qed

lemma forward_nodes_inv:
  assumes "cfr_wf s" "denominators_ok E s" "\<forall>j \<in> set L. j < length (nodes s)"
  shows "\<exists>s'. foldM forward_node L s = Inr s' \<and>
           (cfr_wf s' \<and> denominators_ok E s' \<and> length (nodes s') = length (nodes s))"
proof (rule foldM_total[where P="\<lambda>t. cfr_wf t \<and> denominators_ok E t \<and> length (nodes t) = length (nodes s)"])
  show "cfr_wf s \<and> denominators_ok E s \<and> length (nodes s) = length (nodes s)"
    using assms by simp
next
  fix j t assume "j \<in> set L" and t: "cfr_wf t \<and> denominators_ok E t \<and> length (nodes t) = length (nodes s)"
  then have "j < length (nodes t)" using assms(3) by simp
  from forward_node_inv[OF _ _ this, of E] t
  show "\<exists>s'. forward_node j t = Inr s' \<and>
          (cfr_wf s' \<and> denominators_ok E s' \<and> length (nodes s') = length (nodes s))"
    by auto
qed

lemma backward_nodes_inv:
  assumes "cfr_wf s" "denominators_ok E s" "\<forall>j \<in> set L. j < length (nodes s)"
  shows "\<exists>p. foldM (backward_node E) L (s, r) = Inr p \<and>
           (cfr_wf (fst p) \<and> denominators_ok E (fst p) \<and> length (nodes (fst p)) = length (nodes s))"
proof (rule foldM_total[where P="\<lambda>p :: fsicfr \<times> real list. cfr_wf (fst p) \<and> denominators_ok E (fst p) \<and> length (nodes (fst p)) = length (nodes s)"])
  show "cfr_wf (fst (s, r)) \<and> denominators_ok E (fst (s, r)) \<and> length (nodes (fst (s, r))) = length (nodes s)"
    using assms by simp
next
  fix j and p :: "fsicfr \<times> real list" assume jL: "j \<in> set L"
    and p: "cfr_wf (fst p) \<and> denominators_ok E (fst p) \<and> length (nodes (fst p)) = length (nodes s)"
  obtain t q where pq: "p = (t, q)" by (cases p)
  have j: "j < length (nodes t)" using jL assms(3) p pq by simp
  have nin: "nodes t ! j \<in> set (nodes t)" using j by simp
  have "game_status E (num_rows t, num_cols t) (board (nodes t ! j)) = Undecided \<longrightarrow>
         T (nodes t ! j) + visits (nodes t ! j) \<noteq> 0"
    using p pq nin by (auto simp: denominators_ok_def)
  from backward_node_total[OF j this] obtain t' q' where run: "backward_node E j (t, q) = Inr (t', q')"
    by (metis surj_pair)
  have "cfr_wf t'" using backward_node_wf[OF run j] p pq by simp
  moreover have "denominators_ok E t'" using backward_node_denominators[OF run j] p pq by simp
  moreover have "length (nodes t') = length (nodes s)"
    using backward_node_frame[OF run j] p pq by (auto dest: only_node_length)
  ultimately show "\<exists>p'. backward_node E j p = Inr p' \<and>
          (cfr_wf (fst p') \<and> denominators_ok E (fst p') \<and> length (nodes (fst p')) = length (nodes s))"
    using run pq by auto
qed

lemma train_iteration_inv:
  assumes "cfr_wf s" "denominators_ok E s"
  shows "\<exists>p. train_iteration E (s, r) = Inr p \<and>
           (cfr_wf (fst p) \<and> denominators_ok E (fst p) \<and> length (nodes (fst p)) = length (nodes s))"
proof -
  from forward_nodes_inv[OF assms, of "[0..<length (nodes s)]"] obtain s1 where
    f: "forward_pass s = Inr s1" and i1: "cfr_wf s1" "denominators_ok E s1"
       "length (nodes s1) = length (nodes s)"
    by (auto simp: forward_pass_def)
  from backward_nodes_inv[OF i1(1,2), of "rev [0..<length (nodes s1)]" r] obtain p where
    "backward_pass E (s1, r) = Inr p" "cfr_wf (fst p)" "denominators_ok E (fst p)"
    "length (nodes (fst p)) = length (nodes s1)"
    by (auto simp: backward_pass_def)
  then show ?thesis using f i1 by (auto simp: train_iteration_def)
qed

lemma train_iterations_inv:
  assumes "cfr_wf s" "denominators_ok E s"
  shows "\<exists>p. train_iterations E k (s, r) = Inr p \<and>
           (cfr_wf (fst p) \<and> denominators_ok E (fst p) \<and> length (nodes (fst p)) = length (nodes s))"
proof (induction k)
  case 0
  then show ?case using assms by simp
next
  case (Suc k)
  then obtain t q where a: "train_iterations E k (s, r) = Inr (t, q)" and
    i: "cfr_wf t" "denominators_ok E t" "length (nodes t) = length (nodes s)"
    by auto
  from train_iteration_inv[OF i(1,2), of q] i(3) a show ?case by auto
qed

text \<open>
  On a well-formed graph whose nodes have \<^verbatim>\<open>visits = 1\<close> and \<^verbatim>\<open>T = 0\<close>, any number
  \<^verbatim>\<open>k\<close> of iterations runs to its end, and in the next iteration, when the backward pass
  reaches node \<^verbatim>\<open>j\<close>, the node has \<^verbatim>\<open>T + visits > 0\<close> if its board is undecided, and
  its processing succeeds.
\<close>

lemma training_runs:
  assumes "cfr_wf self" and "\<forall>n \<in> set (nodes self). visits n = 1 \<and> T n = 0"
    and "j < length (nodes self)" and "length regret = cfr_num_actions self"
  shows "\<exists>s0 r0 s1 s2 r2 s3 r3.
           train_iterations E k (self, regret) = Inr (s0, r0) \<and>
           forward_pass s0 = Inr s1 \<and>
           foldM (backward_node E) (rev [Suc j..<length (nodes self)]) (s1, r0) = Inr (s2, r2) \<and>
           (game_status E (num_rows self, num_cols self) (board (nodes s2 ! j)) = Undecided \<longrightarrow>
              0 < T (nodes s2 ! j) + visits (nodes s2 ! j)) \<and>
           backward_node E j (s2, r2) = Inr (s3, r3)"
proof -
  have ok: "denominators_ok E self" using assms(2) by (simp add: denominators_ok_def)
  from train_iterations_inv[OF assms(1) ok, of k regret] obtain s0 r0 where
    a: "train_iterations E k (self, regret) = Inr (s0, r0)" and
    i0: "cfr_wf s0" "denominators_ok E s0" "length (nodes s0) = length (nodes self)"
    by auto
  from forward_nodes_inv[OF i0(1,2), of "[0..<length (nodes s0)]"] obtain s1 where
    f: "forward_pass s0 = Inr s1" and
    i1: "cfr_wf s1" "denominators_ok E s1" "length (nodes s1) = length (nodes s0)"
    by (auto simp: forward_pass_def)
  have "\<forall>i \<in> set (rev [Suc j..<length (nodes self)]). i < length (nodes s1)"
    using i0 i1 by simp
  from backward_nodes_inv[OF i1(1,2) this, of r0] obtain s2 r2 where
    b: "foldM (backward_node E) (rev [Suc j..<length (nodes self)]) (s1, r0) = Inr (s2, r2)" and
    i2: "cfr_wf s2" "denominators_ok E s2" "length (nodes s2) = length (nodes s1)"
    by auto
  have j2: "j < length (nodes s2)" using assms(3) i0 i1 i2 by simp
  have dims: "num_rows s2 = num_rows self" "num_cols s2 = num_cols self"
    using train_iterations_static[OF a] forward_nodes_frame[of "[0..<length (nodes s0)]" s0 s1] f
      backward_nodes_frame[OF b] i0 i1
    by (simp_all add: cfr_static_eq_def forward_pass_def)
  have nin: "nodes s2 ! j \<in> set (nodes s2)" using j2 by simp
  have pos: "game_status E (num_rows self, num_cols self) (board (nodes s2 ! j)) = Undecided \<longrightarrow>
              0 < T (nodes s2 ! j) + visits (nodes s2 ! j)"
    using i2(2) nin dims by (simp add: denominators_ok_def)
  then have "game_status E (num_rows s2, num_cols s2) (board (nodes s2 ! j)) = Undecided \<longrightarrow>
              T (nodes s2 ! j) + visits (nodes s2 ! j) \<noteq> 0"
    using dims by auto
  from backward_node_total[OF j2 this] obtain s3 r3 where
    "backward_node E j (s2, r2) = Inr (s3, r3)" by (metis surj_pair)
  then show ?thesis using a f b pos by blast
qed

text \<open>The scratch list enters the accumulation loop only through additions.\<close>

lemma map2_add_update:
  assumes "length r = length d"
  shows "(map2 (+) r d)[a := map2 (+) r d ! a + (x::real)] = map2 (+) (r[a := r ! a + x]) d"
proof (cases "a < length r")
  case True
  show ?thesis
    by (rule nth_equalityI) (use True assms in \<open>auto simp: nth_list_update\<close>)
next
  case False
  then show ?thesis using assms by (simp add: list_update_beyond)
qed

lemma backward_child_shift:
  assumes "length r = length d" and "backward_child i strat a c (s, r) = (s', r')"
  shows "backward_child i strat a c (s, map2 (+) r d) = (s', map2 (+) r' d) \<and> length r' = length d"
  using assms
  by (auto simp: backward_child_def Let_def map2_add_update split: option.splits)

lemma backward_children_shift:
  assumes "length r = length d" and "fold (backward_child i strat a) cs (s, r) = (s', r')"
  shows "fold (backward_child i strat a) cs (s, map2 (+) r d) = (s', map2 (+) r' d) \<and> length r' = length d"
  using assms
proof (induction cs arbitrary: s r)
  case Nil
  then show ?case by simp
next
  case (Cons c cs)
  obtain s1 r1 where st: "backward_child i strat a c (s, r) = (s1, r1)"
    by (cases "backward_child i strat a c (s, r)")
  note sh = backward_child_shift[OF Cons.prems(1) st]
  from Cons.prems(2) st have "fold (backward_child i strat a) cs (s1, r1) = (s', r')" by simp
  from Cons.IH[OF _ this] sh show ?case by simp
qed

lemma backward_action_shift:
  assumes "length r = length d" and "backward_action i strat a (s, r) = (s', r')"
  shows "backward_action i strat a (s, map2 (+) r d) = (s', map2 (+) r' d) \<and> length r' = length d"
  using assms backward_children_shift[OF assms(1)]
  by (auto simp: backward_action_def split: option.splits)

lemma backward_actions_shift:
  assumes "length r = length d" and "fold (backward_action i strat) as (s, r) = (s', r')"
  shows "fold (backward_action i strat) as (s, map2 (+) r d) = (s', map2 (+) r' d) \<and> length r' = length d"
  using assms
proof (induction as arbitrary: s r)
  case Nil
  then show ?case by simp
next
  case (Cons a as)
  obtain s1 r1 where st: "backward_action i strat a (s, r) = (s1, r1)"
    by (cases "backward_action i strat a (s, r)")
  note sh = backward_action_shift[OF Cons.prems(1) st]
  from Cons.prems(2) st have "fold (backward_action i strat) as (s1, r1) = (s', r')" by simp
  from Cons.IH[OF _ this] sh show ?case by simp
qed

lemma map2_add_zero: "map2 (+) (replicate (length d) 0) d = (d :: real list)"
  by (rule nth_equalityI) simp_all

lemma backward_actions_from_zero:
  assumes "fold (backward_action i strat) as (s, r) = (s', r')" and "a < length r"
  shows "r' ! a = r ! a + snd (fold (backward_action i strat) as (s, replicate (length r) 0)) ! a"
proof -
  obtain s0 z where z: "fold (backward_action i strat) as (s, replicate (length r) 0) = (s0, z)"
    by (cases "fold (backward_action i strat) as (s, replicate (length r) 0)")
  have "fold (backward_action i strat) as (s, map2 (+) (replicate (length r) 0) r) = (s0, map2 (+) z r) \<and> length z = length r"
    by (rule backward_actions_shift[OF _ z]) simp
  then have "r' = map2 (+) z r" "length z = length r"
    using assms(1) by (simp_all add: map2_add_zero)
  then show ?thesis using assms(2) z by simp
qed

lemma backward_node_contribution:
  assumes run: "backward_node E i (s, r) = Inr (s', r')" and i: "i < length (nodes s)"
    and len: "length r = cfr_num_actions s" and a: "a < length r"
  shows "r' ! a = r ! a + node_contributions E i s ! a"
proof -
  let ?n = "nodes s ! i"
  obtain strat node' where gs: "getStrategy ?n = (strat, node')" by (cases "getStrategy ?n")
  let ?s1 = "s\<lparr>nodes := (nodes s)[i := node']\<rparr>"
  have bd: "board (nodes ?s1 ! i) = board ?n"
    using getStrategy_frame[of ?n] gs i by (simp add: static_eq_def)
  show ?thesis
  proof (cases "game_status E (num_rows s, num_cols s) (board ?n) = Undecided")
    case True
    from backward_node_undecided[OF run i True] gs obtain s2 where
      f: "fold (backward_action i strat) [0..<cfr_num_actions s] (?s1, r) = (s2, r')"
      by auto
    have "node_contributions E i s =
          snd (fold (backward_action i strat) [0..<cfr_num_actions s] (?s1, replicate (length r) 0))"
      using True bd len by (simp add: node_contributions_def gs Let_def)
    then show ?thesis using backward_actions_from_zero[OF f a] by simp
  next
    case False
    then have "r' = r" using backward_node_cases[OF run i] by auto
    moreover have "node_contributions E i s = replicate (length r) 0"
      using False bd len by (simp add: node_contributions_def gs Let_def)
    ultimately show ?thesis using a by simp
  qed
qed

lemma backward_nodes_contribution:
  assumes "foldM (backward_node E) L (s, r) = Inr (s', r')"
    and "\<forall>i \<in> set L. i < length (nodes s)"
    and "length r = cfr_num_actions s" and "a < length r"
  shows "r' ! a = r ! a + backward_contributions E L (s, r) a"
  using assms
proof (induction L arbitrary: s r)
  case Nil
  then show ?case by simp
next
  case (Cons i L)
  from Cons.prems(1) obtain s1 r1 where
    step: "backward_node E i (s, r) = Inr (s1, r1)" and
    rest: "foldM (backward_node E) L (s1, r1) = Inr (s', r')"
    by (auto split: sum.splits)
  have i: "i < length (nodes s)" using Cons.prems(2) by simp
  note f = backward_node_frame[OF step i]
  have st: "length (nodes s1) = length (nodes s)" "cfr_num_actions s1 = cfr_num_actions s"
    "length r1 = length r"
    using f by (simp_all add: only_node_def cfr_static_eq_def)
  have "r' ! a = r1 ! a + backward_contributions E L (s1, r1) a"
    by (rule Cons.IH[OF rest]) (use Cons.prems st in simp_all)
  moreover have "r1 ! a = r ! a + node_contributions E i s ! a"
    by (rule backward_node_contribution[OF step i Cons.prems(3,4)])
  ultimately show ?case using step by simp
qed

text \<open>
  Claim C9. The scratch list \<^verbatim>\<open>regret\<close> is allocated once, as zeros, and no entry is
  ever reset: processing a node adds that node's contributions to what the list already
  holds, and after any number of iterations \<^verbatim>\<open>regret[a]\<close> is the sum of the
  contributions to \<^verbatim>\<open>a\<close> of all nodes processed so far, in all iterations.
\<close>

theorem regret_scratch_accumulates:
  assumes "train_iterations E k (self, replicate (cfr_num_actions self) 0) = Inr (self', regret')"
    and "a < cfr_num_actions self" and "cfr_wf self"
  shows "regret' ! a = train_contributions E k (self, replicate (cfr_num_actions self) 0) a \<and>
         (\<forall>i s r s1 r1.
            cfr_wf s \<and> i < length (nodes s) \<and> length r = cfr_num_actions s \<and> a < length r \<and>
            backward_node E i (s, r) = Inr (s1, r1) \<longrightarrow>
            r1 ! a = r ! a + node_contributions E i s ! a)"
proof -
  let ?p = "(self, replicate (cfr_num_actions self) 0)"
  have "regret' ! a = train_contributions E k ?p a"
    using assms(1)
  proof (induction k arbitrary: self' regret')
    case 0
    then show ?case using assms(2) by auto
  next
    case (Suc k)
    from Suc.prems obtain s0 r0 where
      it: "train_iterations E k ?p = Inr (s0, r0)" and
      step: "train_iteration E (s0, r0) = Inr (self', regret')"
      by (auto split: sum.splits)
    from step obtain s1 where
      f: "forward_pass s0 = Inr s1" and b: "backward_pass E (s1, r0) = Inr (self', regret')"
      by (auto simp: train_iteration_def split: sum.splits)
    note st = train_iterations_static[OF it]
    have ff: "cfr_static_eq s0 s1"
      using forward_nodes_frame[of "[0..<length (nodes s0)]" s0 s1] f by (simp add: forward_pass_def)
    have len: "length r0 = cfr_num_actions s1" "a < length r0"
      using st ff assms(2) by (simp_all add: cfr_static_eq_def)
    have run: "foldM (backward_node E) (rev [0..<length (nodes s1)]) (s1, r0) = Inr (self', regret')"
      using b by (simp add: backward_pass_def)
    have "regret' ! a = r0 ! a + backward_contributions E (rev [0..<length (nodes s1)]) (s1, r0) a"
      by (rule backward_nodes_contribution[OF run _ len]) simp
    then show ?case using Suc.IH[OF it] it f by simp
  qed
  then show ?thesis using backward_node_contribution by blast
qed

theorem regret_scratch_accumulates_witness:
  "\<exists>s'. train_iterations hex_line (Suc (Suc 0)) (cfr_1x1, replicate (cfr_num_actions cfr_1x1) 0)
            = Inr (s', [2]) \<and>
     train_contributions hex_line (Suc (Suc 0)) (cfr_1x1, replicate (cfr_num_actions cfr_1x1) 0) 0 = 2"
proof -
  have n: "cfr_num_actions cfr_1x1 = 1" by (simp add: cfr_1x1_def)
  obtain s' where run: "train_iterations hex_line (Suc (Suc 0)) (cfr_1x1, replicate (cfr_num_actions cfr_1x1) 0)
            = Inr (s', [2])"
    unfolding n by (simp add: train_defs)
  have a: "0 < cfr_num_actions cfr_1x1" by (simp add: n)
  from regret_scratch_accumulates[OF run a cfr_1x1_wf] run show ?thesis by auto
qed

lemma backward_node_strat:
  assumes run: "backward_node E i (s, r) = Inr (s', r')" and i: "i < length (nodes s)"
  shows "strat_eq (snd (getStrategy (nodes s ! i))) (nodes s' ! i)"
proof (cases "game_status E (num_rows s, num_cols s) (board (nodes s ! i)) = Undecided")
  case True
  from backward_node_undecided[OF run i True] obtain node2 node3 where
    se: "strat_eq (snd (getStrategy (nodes s ! i))) node2" and
    upd: "foldM (regret_update (if player node2 = C_PLAYER1 then pSum2 node2 else pSum1 node2) r')
                 (pos_actions node2) node2 = Inr node3" and
    fin: "nodes s' ! i = reset_transients (node3\<lparr>T := T node3 + visits node3\<rparr>)"
    by blast
  show ?thesis
    using se regret_updates_rel[OF upd] fin
    by (simp add: strat_eq_def upd_rel_def reset_transients_def)
next
  case False
  then show ?thesis
    using backward_node_cases[OF run i]
    by (auto simp: strat_eq_def reset_transients_def)
qed

lemma strategySum_step_nth:
  assumes "node_wf n" and "a < num_actions n"
  shows "strategySum (snd (getStrategy n)) ! a =
           strategySum n ! a + regret_matching (regretSum n) ! a * reach_weight n"
  using assms by (simp add: getStrategy_eq strategySum_step_def)

lemma forward_nodes_wf:
  assumes "foldM forward_node L s = Inr s'" and "cfr_wf s" and "\<forall>j \<in> set L. j < length (nodes s)"
  shows "cfr_wf s' \<and> length (nodes s') = length (nodes s)"
proof (rule foldM_invariant[OF assms(1), where P="\<lambda>t. cfr_wf t \<and> length (nodes t) = length (nodes s)"])
  show "cfr_wf s \<and> length (nodes s) = length (nodes s)" using assms(2) by simp
next
  fix j t t' assume j: "j \<in> set L" and t: "cfr_wf t \<and> length (nodes t) = length (nodes s)"
    and st: "forward_node j t = Inr t'"
  have jt: "j < length (nodes t)" using j t assms(3) by simp
  show "cfr_wf t' \<and> length (nodes t') = length (nodes s)"
    using forward_node_wf[OF st jt] forward_node_frame[OF st jt] t
    by (simp add: cfr_static_eq_def)
qed

text \<open>
  The \<^verbatim>\<open>strategySum\<close> array of a node after one iteration: the old entries with the
  two increments of the iteration.
\<close>

lemma strategySum_iteration:
  assumes wf: "cfr_wf self" and i: "i < length (nodes self)"
    and pre: "foldM forward_node [0..<i] self = Inr self_i"
    and fwd: "forward_pass self = Inr self_f"
    and run: "train_iteration E (self, regret) = Inr (self', regret')"
  shows "length (strategySum (nodes self' ! i)) = cfr_num_actions self \<and>
         (\<forall>a < cfr_num_actions self.
            strategySum (nodes self' ! i) ! a =
              strategySum (nodes self ! i) ! a +
              regret_matching (regretSum (nodes self ! i)) ! a * reach_weight (nodes self_i ! i) +
              regret_matching (regretSum (nodes self ! i)) ! a * reach_weight (nodes self_f ! i))"
proof -
  let ?n = "length (nodes self)"
  let ?m = "nodes self ! i"
  have wn: "node_wf ?m" "num_actions ?m = cfr_num_actions self"
    using cfr_wf_nth[OF wf i] by simp_all
  have fi: "cfr_static_eq self self_i \<and> static_eq ?m (nodes self_i ! i) \<and>
            learn_eq ?m (nodes self_i ! i) \<and> strat_eq ?m (nodes self_i ! i)"
    using forward_nodes_frame[OF pre] i by simp
  then have ii: "i < length (nodes self_i)" using i by (simp add: cfr_static_eq_def)
  have wi: "node_wf (nodes self_i ! i)" "num_actions (nodes self_i ! i) = cfr_num_actions self"
    using fi wn by (simp_all add: node_wf_def static_eq_def learn_eq_def strat_eq_def)
  from fwd have "foldM forward_node ([0..<i] @ [i] @ [Suc i..<?n]) self = Inr self_f"
    using upt_split3[OF i] by (simp add: forward_pass_def)
  then obtain t where
    st: "forward_node i self_i = Inr t" and
    rest: "foldM forward_node [Suc i..<?n] t = Inr self_f"
    using pre by (auto simp: foldM_append split: sum.splits)
  note ft = forward_node_frame[OF st ii]
  have lt: "length (nodes t) = ?n" using ft fi by (simp add: cfr_static_eq_def)
  have fr: "static_eq (nodes t ! i) (nodes self_f ! i) \<and> learn_eq (nodes t ! i) (nodes self_f ! i) \<and>
            strat_eq (nodes t ! i) (nodes self_f ! i) \<and> cfr_static_eq t self_f"
    using forward_nodes_frame[OF rest] lt i by simp
  have s1: "strategySum (nodes self_f ! i) ! a =
          strategySum ?m ! a + regret_matching (regretSum ?m) ! a * reach_weight (nodes self_i ! i)"
    if "a < cfr_num_actions self" for a
    using strategySum_step_nth[OF wi(1)] wi(2) that ft fr fi
    by (simp add: strat_eq_def learn_eq_def)
  have lf: "regretSum (nodes self_f ! i) = regretSum ?m"
    using fi ft ii fr by (simp add: learn_eq_def)
  have wfF: "cfr_wf self_f \<and> length (nodes self_f) = ?n"
    using forward_nodes_wf[of "[0..<?n]" self self_f] fwd wf by (simp add: forward_pass_def)
  have "cfr_num_actions self_f = cfr_num_actions self"
    using forward_nodes_frame[of "[0..<?n]" self self_f] fwd by (simp add: forward_pass_def cfr_static_eq_def)
  then have wff: "node_wf (nodes self_f ! i)" "num_actions (nodes self_f ! i) = cfr_num_actions self"
    using cfr_wf_nth[of self_f i] wfF i by simp_all
  from run fwd have b: "backward_pass E (self_f, regret) = Inr (self', regret')"
    by (simp add: train_iteration_def)
  have jf: "i < length (nodes self_f)" using fr lt i by (simp add: cfr_static_eq_def)
  from backward_pass_split[OF b jf] obtain s2 r2 s3 r3 where
    *: "nodes s2 ! i = nodes self_f ! i" "cfr_static_eq self_f s2"
       "backward_node E i (s2, r2) = Inr (s3, r3)" "nodes self' ! i = nodes s3 ! i"
    by blast
  have i2: "i < length (nodes s2)" using jf * by (simp add: cfr_static_eq_def)
  have eq: "strategySum (nodes self' ! i) = strategySum (snd (getStrategy (nodes self_f ! i)))"
    using backward_node_strat[OF *(3) i2] * by (simp add: strat_eq_def)
  have len: "length (strategySum (nodes self' ! i)) = cfr_num_actions self"
    unfolding eq using wff by (simp add: getStrategy_eq strategySum_step_def)
  have "strategySum (nodes self' ! i) ! a =
      strategySum ?m ! a +
      regret_matching (regretSum ?m) ! a * reach_weight (nodes self_i ! i) +
      regret_matching (regretSum ?m) ! a * reach_weight (nodes self_f ! i)"
    if a: "a < cfr_num_actions self" for a
  proof -
    have "strategySum (nodes self' ! i) ! a =
      strategySum (nodes self_f ! i) ! a +
      regret_matching (regretSum (nodes self_f ! i)) ! a * reach_weight (nodes self_f ! i)"
      unfolding eq using strategySum_step_nth[OF wff(1)] wff(2) a by simp
    then show ?thesis using s1[OF a] lf by simp
  qed
  then show ?thesis using len by blast
qed

text \<open>
  Claim C10. In one iteration \<^verbatim>\<open>getStrategy\<close> runs twice on every node, terminal
  or not: in the forward pass, when the nodes before it have been processed, and in the
  backward pass, with the reach the complete forward pass left (before the reset). Each
  call adds \<^verbatim>\<open>strategy[a]\<close> times the node's reach accumulator of that moment to
  \<^verbatim>\<open>strategySum[a]\<close>.
\<close>

theorem getStrategy_twice_per_iteration:
  assumes wf: "cfr_wf self" and i: "i < length (nodes self)" and a: "a < cfr_num_actions self"
    and pre: "foldM forward_node [0..<i] self = Inr self_i"
    and fwd: "forward_pass self = Inr self_f"
    and run: "train_iteration E (self, regret) = Inr (self', regret')"
    and "length regret = cfr_num_actions self"
  shows "strategySum (nodes self' ! i) ! a =
           strategySum (nodes self ! i) ! a +
           regret_matching (regretSum (nodes self ! i)) ! a * reach_weight (nodes self_i ! i) +
           regret_matching (regretSum (nodes self ! i)) ! a * reach_weight (nodes self_f ! i)"
  using strategySum_iteration[OF wf i pre fwd run] a by blast

theorem getStrategy_twice_per_iteration_witness:
  "\<exists>self_i self_f s' r'.
     foldM forward_node [0..<1] cfr_1x1 = Inr self_i \<and>
     forward_pass cfr_1x1 = Inr self_f \<and>
     train_iteration hex_line (cfr_1x1, [0]) = Inr (s', r') \<and>
     reach_weight (nodes self_i ! 1) = 2 \<and> reach_weight (nodes self_f ! 1) = 2 \<and>
     is_terminal (nodes cfr_1x1 ! 1) \<and>
     strategySum (nodes s' ! 1) ! 0 = 0 + 1 * 2 + 1 * 2"
proof -
  obtain self_i where pre: "foldM forward_node [0..<1] cfr_1x1 = Inr self_i"
    and ri: "reach_weight (nodes self_i ! 1) = 2"
    by (simp add: train_defs reach_weight_def)
  obtain self_f where fwd: "forward_pass cfr_1x1 = Inr self_f"
    and rf: "reach_weight (nodes self_f ! 1) = 2"
    by (simp add: train_defs reach_weight_def)
  obtain s' r' where run: "train_iteration hex_line (cfr_1x1, [0]) = Inr (s', r')"
    by (simp add: train_defs)
  have i: "1 < length (nodes cfr_1x1)" and a: "0 < cfr_num_actions cfr_1x1"
    by (simp_all add: cfr_1x1_def)
  have v: "strategySum (nodes cfr_1x1 ! 1) ! 0 = 0"
    "regret_matching (regretSum (nodes cfr_1x1 ! 1)) ! 0 = 1"
    "is_terminal (nodes cfr_1x1 ! 1)"
    by (simp_all add: cfr_1x1_def Node_init_def regret_matching_def)
  have r: "length [0::real] = cfr_num_actions cfr_1x1" by (simp add: cfr_1x1_def)
  from getStrategy_twice_per_iteration[OF cfr_1x1_wf i a pre fwd run r]
  have "strategySum (nodes s' ! 1) ! 0 = 0 + 1 * 2 + 1 * 2"
    unfolding v ri rf by simp
  then show ?thesis using pre fwd run ri rf v(3) by blast
qed















text \<open>
  The \<^verbatim>\<open>regretSum\<close> array of a node after one iteration: the weighted mean of the old
  entry and the regret of the iteration at the legal actions of a node whose board is in
  progress, and the old entry everywhere else.
\<close>

lemma regretSum_iteration:
  assumes wf: "cfr_wf self" and i: "i < length (nodes self)"
    and fwd: "forward_pass self = Inr self_f"
    and run: "train_iteration E (self, regret) = Inr (self', regret')"
  shows "\<exists>s2 r2 s3 r3.
           foldM (backward_node E) (rev [Suc i..<length (nodes self)]) (self_f, regret) = Inr (s2, r2) \<and>
           backward_node E i (s2, r2) = Inr (s3, r3) \<and>
           length (regretSum (nodes self' ! i)) = cfr_num_actions self \<and>
           (\<forall>a < cfr_num_actions self.
              regretSum (nodes self' ! i) ! a =
                (if game_status E (num_rows self, num_cols self) (board (nodes self ! i)) = Undecided \<and>
                    a \<in> set (pos_actions (nodes self ! i))
                 then (real_of_int (T (nodes self ! i)) * regretSum (nodes self ! i) ! a +
                       real_of_int (visits (nodes self_f ! i)) *
                       (if player (nodes self ! i) = C_PLAYER1 then pSum2 (nodes self_f ! i)
                        else pSum1 (nodes self_f ! i)) *
                       (r3 ! a - u (nodes self' ! i)))
                      / real_of_int (T (nodes self ! i) + visits (nodes self_f ! i))
                 else regretSum (nodes self ! i) ! a))"
proof -
  let ?n = "length (nodes self)"
  let ?m = "nodes self ! i"
  let ?f = "nodes self_f ! i"
  let ?st = "game_status E (num_rows self, num_cols self) (board ?m)"
  have ff: "cfr_static_eq self self_f \<and> static_eq ?m ?f \<and> learn_eq ?m ?f"
    using forward_nodes_frame[of "[0..<?n]" self self_f] fwd i by (simp add: forward_pass_def)
  have wfF: "cfr_wf self_f \<and> length (nodes self_f) = ?n"
    using forward_nodes_wf[of "[0..<?n]" self self_f] fwd wf by (simp add: forward_pass_def)
  have jf: "i < length (nodes self_f)" using wfF i by simp
  have na: "cfr_num_actions self_f = cfr_num_actions self" using ff by (simp add: cfr_static_eq_def)
  have wff: "node_wf ?f" "num_actions ?f = cfr_num_actions self"
    using cfr_wf_nth[of self_f i] wfF i na by simp_all
  have old: "regretSum ?f = regretSum ?m" "T ?f = T ?m" "player ?f = player ?m"
    "pos_actions ?f = pos_actions ?m" "board ?f = board ?m"
    using ff by (simp_all add: learn_eq_def static_eq_def)
  have lenf: "length (regretSum ?f) = cfr_num_actions self"
    using wff by (simp add: node_wf_def)
  from run fwd have b: "backward_pass E (self_f, regret) = Inr (self', regret')"
    by (simp add: train_iteration_def)
  from backward_pass_split[OF b jf] obtain s2 r2 s3 r3 where
    pre: "foldM (backward_node E) (rev [Suc i..<length (nodes self_f)]) (self_f, regret) = Inr (s2, r2)" and
    *: "nodes s2 ! i = ?f" "cfr_static_eq self_f s2"
       "backward_node E i (s2, r2) = Inr (s3, r3)" "nodes self' ! i = nodes s3 ! i"
    by blast
  have i2: "i < length (nodes s2)" using jf * by (simp add: cfr_static_eq_def)
  have st2: "game_status E (num_rows s2, num_cols s2) (board (nodes s2 ! i)) = ?st"
    using ff * old by (simp add: cfr_static_eq_def)
  have main: "length (regretSum (nodes s3 ! i)) = cfr_num_actions self \<and>
           (\<forall>a < cfr_num_actions self.
              regretSum (nodes s3 ! i) ! a =
                (if ?st = Undecided \<and> a \<in> set (pos_actions ?m)
                 then (real_of_int (T ?m) * regretSum ?m ! a +
                       real_of_int (visits ?f) *
                       (if player ?m = C_PLAYER1 then pSum2 ?f else pSum1 ?f) *
                       (r3 ! a - u (nodes s3 ! i)))
                      / real_of_int (T ?m + visits ?f)
                 else regretSum ?m ! a))"
  proof (cases "?st = Undecided")
    case False
    then have "game_status E (num_rows s2, num_cols s2) (board (nodes s2 ! i)) \<noteq> Undecided"
      using st2 by simp
    then have "regretSum (nodes s3 ! i) = regretSum (snd (getStrategy (nodes s2 ! i)))"
      using backward_node_cases[OF *(3) i2] by (auto simp: reset_transients_def)
    then have "regretSum (nodes s3 ! i) = regretSum ?m"
      using getStrategy_frame[of ?f] * old by (simp add: learn_eq_def)
    then show ?thesis using False lenf old by simp
  next
    case True
    then have und: "game_status E (num_rows s2, num_cols s2) (board (nodes s2 ! i)) = Undecided"
      using st2 by simp
    from backward_node_undecided[OF *(3) i2 und] obtain node2 node3 where
      se: "static_eq (nodes s2 ! i) node2" and re: "reach_eq (nodes s2 ! i) node2" and
      rs: "regretSum node2 = regretSum (nodes s2 ! i)" and t2: "T node2 = T (nodes s2 ! i)" and
      upd: "foldM (regret_update (if player node2 = C_PLAYER1 then pSum2 node2 else pSum1 node2) r3)
                 (pos_actions node2) node2 = Inr node3" and
      fin: "nodes s3 ! i = reset_transients (node3\<lparr>T := T node3 + visits node3\<rparr>)"
      by blast
    note pa = node_wf_pos_actions[OF wff(1)]
    have pos: "pos_actions node2 = pos_actions ?m" "player node2 = player ?m"
      using se * old by (simp_all add: static_eq_def)
    have rch: "visits node2 = visits ?f" "pSum1 node2 = pSum1 ?f" "pSum2 node2 = pSum2 ?f"
      using re * by (simp_all add: reach_eq_def)
    have rs2: "regretSum node2 = regretSum ?m" "T node2 = T ?m"
      using rs t2 * old by simp_all
    have len2: "length (regretSum node2) = cfr_num_actions self" using rs2 old lenf by simp
    have d: "distinct (pos_actions node2)" using pa pos old by simp
    have r: "\<forall>a \<in> set (pos_actions node2). a < length (regretSum node2)"
      using pa pos old wff len2 by simp
    note f = regret_updates_formula[OF upd d r]
    note ur = regret_updates_rel[OF upd]
    have u3: "u node3 = u node2" "length (regretSum node3) = length (regretSum node2)"
      using ur by (simp_all add: upd_rel_def)
    have fu: "u (nodes s3 ! i) = u node2" "regretSum (nodes s3 ! i) = regretSum node3"
      using fin u3 by (simp_all add: reset_transients_def)
    show ?thesis
      using f fu u3 len2 rs2 rch pos True by simp
  qed
  have "length (nodes self_f) = ?n" using wfF by simp
  then have "foldM (backward_node E) (rev [Suc i..<?n]) (self_f, regret) = Inr (s2, r2)"
    using pre by simp
  then show ?thesis using *(3,4) main by auto
qed

text \<open>
  Claim C2, as amended. At the end of every iteration's backward pass every node's
  \<^verbatim>\<open>visits\<close>, \<^verbatim>\<open>pSum1\<close> and \<^verbatim>\<open>pSum2\<close> are zero, and \<^verbatim>\<open>regretSum\<close> and
  \<^verbatim>\<open>strategySum\<close> hold their accumulated values: every entry of \<^verbatim>\<open>strategySum\<close> is
  the entry the iteration started with plus the two increments of the iteration, and
  every entry of \<^verbatim>\<open>regretSum\<close> is the entry the iteration started with, or, at a legal
  action of a node whose board is in progress, the weighted mean of that entry and the
  regret of the iteration. (The utility \<^verbatim>\<open>u\<close> is not among the fields the pass
  resets.)
\<close>

theorem transients_reset_after_iteration:
  assumes run: "train_iteration E (self, regret) = Inr (self', regret')"
    and wf: "cfr_wf self" and len: "length regret = cfr_num_actions self"
  shows "(\<forall>n \<in> set (nodes self'). visits n = 0 \<and> pSum1 n = 0 \<and> pSum2 n = 0) \<and>
         (\<forall>i < length (nodes self).
            \<exists>self_i self_f s2 r2 s3 r3.
              foldM forward_node [0..<i] self = Inr self_i \<and>
              forward_pass self = Inr self_f \<and>
              foldM (backward_node E) (rev [Suc i..<length (nodes self)]) (self_f, regret) = Inr (s2, r2) \<and>
              backward_node E i (s2, r2) = Inr (s3, r3) \<and>
              length (strategySum (nodes self' ! i)) = cfr_num_actions self \<and>
              length (regretSum (nodes self' ! i)) = cfr_num_actions self \<and>
              (\<forall>a < cfr_num_actions self.
                 strategySum (nodes self' ! i) ! a =
                   strategySum (nodes self ! i) ! a +
                   regret_matching (regretSum (nodes self ! i)) ! a * reach_weight (nodes self_i ! i) +
                   regret_matching (regretSum (nodes self ! i)) ! a * reach_weight (nodes self_f ! i) \<and>
                 regretSum (nodes self' ! i) ! a =
                   (if game_status E (num_rows self, num_cols self) (board (nodes self ! i)) = Undecided \<and>
                       a \<in> set (pos_actions (nodes self ! i))
                    then (real_of_int (T (nodes self ! i)) * regretSum (nodes self ! i) ! a +
                          real_of_int (visits (nodes self_f ! i)) *
                          (if player (nodes self ! i) = C_PLAYER1 then pSum2 (nodes self_f ! i)
                           else pSum1 (nodes self_f ! i)) *
                          (r3 ! a - u (nodes self' ! i)))
                         / real_of_int (T (nodes self ! i) + visits (nodes self_f ! i))
                    else regretSum (nodes self ! i) ! a)))"
proof -
  from run obtain self_f where
    fwd: "forward_pass self = Inr self_f" and
    b: "backward_pass E (self_f, regret) = Inr (self', regret')"
    by (auto simp: train_iteration_def split: sum.splits)
  have a: "\<forall>n \<in> set (nodes self'). visits n = 0 \<and> pSum1 n = 0 \<and> pSum2 n = 0"
    by (rule backward_pass_reset[OF b])
  have c: "\<exists>self_i self_f s2 r2 s3 r3.
              foldM forward_node [0..<i] self = Inr self_i \<and>
              forward_pass self = Inr self_f \<and>
              foldM (backward_node E) (rev [Suc i..<length (nodes self)]) (self_f, regret) = Inr (s2, r2) \<and>
              backward_node E i (s2, r2) = Inr (s3, r3) \<and>
              length (strategySum (nodes self' ! i)) = cfr_num_actions self \<and>
              length (regretSum (nodes self' ! i)) = cfr_num_actions self \<and>
              (\<forall>a < cfr_num_actions self.
                 strategySum (nodes self' ! i) ! a =
                   strategySum (nodes self ! i) ! a +
                   regret_matching (regretSum (nodes self ! i)) ! a * reach_weight (nodes self_i ! i) +
                   regret_matching (regretSum (nodes self ! i)) ! a * reach_weight (nodes self_f ! i) \<and>
                 regretSum (nodes self' ! i) ! a =
                   (if game_status E (num_rows self, num_cols self) (board (nodes self ! i)) = Undecided \<and>
                       a \<in> set (pos_actions (nodes self ! i))
                    then (real_of_int (T (nodes self ! i)) * regretSum (nodes self ! i) ! a +
                          real_of_int (visits (nodes self_f ! i)) *
                          (if player (nodes self ! i) = C_PLAYER1 then pSum2 (nodes self_f ! i)
                           else pSum1 (nodes self_f ! i)) *
                          (r3 ! a - u (nodes self' ! i)))
                         / real_of_int (T (nodes self ! i) + visits (nodes self_f ! i))
                    else regretSum (nodes self ! i) ! a))"
    if i: "i < length (nodes self)" for i
  proof -
    from fwd have "foldM forward_node ([0..<i] @ [i] @ [Suc i..<length (nodes self)]) self = Inr self_f"
      using upt_split3[OF i] by (simp add: forward_pass_def)
    then obtain self_i where pre: "foldM forward_node [0..<i] self = Inr self_i"
      by (auto simp: foldM_append split: sum.splits)
    note s = strategySum_iteration[OF wf i pre fwd run]
    from regretSum_iteration[OF wf i fwd run] obtain s2 r2 s3 r3 where
      r: "foldM (backward_node E) (rev [Suc i..<length (nodes self)]) (self_f, regret) = Inr (s2, r2)"
         "backward_node E i (s2, r2) = Inr (s3, r3)"
         "length (regretSum (nodes self' ! i)) = cfr_num_actions self"
         "\<forall>a < cfr_num_actions self.
              regretSum (nodes self' ! i) ! a =
                (if game_status E (num_rows self, num_cols self) (board (nodes self ! i)) = Undecided \<and>
                    a \<in> set (pos_actions (nodes self ! i))
                 then (real_of_int (T (nodes self ! i)) * regretSum (nodes self ! i) ! a +
                       real_of_int (visits (nodes self_f ! i)) *
                       (if player (nodes self ! i) = C_PLAYER1 then pSum2 (nodes self_f ! i)
                        else pSum1 (nodes self_f ! i)) *
                       (r3 ! a - u (nodes self' ! i)))
                      / real_of_int (T (nodes self ! i) + visits (nodes self_f ! i))
                 else regretSum (nodes self ! i) ! a)"
      by blast
    show ?thesis
      apply (rule exI[of _ self_i], rule exI[of _ self_f], rule exI[of _ s2], rule exI[of _ r2],
             rule exI[of _ s3], rule exI[of _ r3])
      using pre fwd r s by blast
  qed
  show ?thesis using a c by blast
qed

theorem transients_reset_after_iteration_witness:
  "\<exists>self s' r'. FSICFR_init 6 dark_line hex_line 1 2 = Some self \<and>
     train_iteration hex_line (self, [0, 0]) = Inr (s', r') \<and>
     visits (nodes s' ! 0) = 0 \<and> pSum1 (nodes s' ! 1) = 0 \<and> pSum2 (nodes s' ! 2) = 0 \<and>
     length (strategySum (nodes s' ! 0)) = 2 \<and> length (regretSum (nodes s' ! 0)) = 2"
proof -
  from built_1x2 obtain self where run: "FSICFR_init 6 dark_line hex_line 1 2 = Some self"
    and wf: "cfr_wf self" and c: "\<forall>n \<in> set (nodes self). visits n = 1 \<and> T n = 0"
    and l: "length (nodes self) = 3" and na: "cfr_num_actions self = 2"
    by (elim exE conjE) (rule that; assumption)
  have i: "0 < length (nodes self)" using l by simp
  have r: "length [0::real, 0] = cfr_num_actions self" using na by simp
  from training_runs[OF wf c i r, of hex_line "Suc 0"] obtain s' r' where
    it: "train_iteration hex_line (self, [0, 0]) = Inr (s', r')" by auto
  note th = transients_reset_after_iteration[OF it wf r]
  have len: "length (nodes s') = 3" using train_iteration_static[OF it] l by (simp add: cfr_static_eq_def)
  have "nodes s' ! 0 \<in> set (nodes s')" "nodes s' ! 1 \<in> set (nodes s')" "nodes s' ! 2 \<in> set (nodes s')"
    using len by simp_all
  then have z: "visits (nodes s' ! 0) = 0 \<and> pSum1 (nodes s' ! 1) = 0 \<and> pSum2 (nodes s' ! 2) = 0"
    using th by blast
  have "length (strategySum (nodes s' ! 0)) = 2 \<and> length (regretSum (nodes s' ! 0)) = 2"
    using th i na by auto
  then show ?thesis using run it z by blast
qed

text \<open>
  Claim C2 as stated fails: after one iteration on the solver object of the board of one
  row and two columns all three nodes have \<^verbatim>\<open>u = 1\<close>.
\<close>

theorem transients_reset_counterexample:
  "(case FSICFR_init 6 dark_line hex_line 1 2 of
      None \<Rightarrow> []
    | Some self \<Rightarrow>
        (case train_iteration hex_line (self, [0, 0]) of
           Inl e \<Rightarrow> [] | Inr (s, r) \<Rightarrow> map u (nodes s))) = [1, 1, 1]"
  by (simp add: FSICFR_init_def build_defs train_defs eval_nat_numeral)

section \<open>Training on the graph the construction returns\<close>

text \<open>
  Claim C6. On the graph the construction returns, for a game whose boards have one entry
  for each of the \<^verbatim>\<open>rows * cols\<close> cells, every node has \<^verbatim>\<open>visits = 1\<close> and
  \<^verbatim>\<open>T = 0\<close>; any number \<^verbatim>\<open>k\<close> of iterations runs without a zero denominator, and in
  the next iteration, when the backward pass reaches node \<^verbatim>\<open>j\<close>, the node has
  \<^verbatim>\<open>T + visits > 0\<close> if its regrets are to be updated (its board is undecided), and its
  processing succeeds. So a node with \<^verbatim>\<open>visits = 0\<close> and \<^verbatim>\<open>T = 0\<close> is never updated.
\<close>

theorem regret_denominator_positive:
  assumes "FSICFR_init fuel D E rows cols = Some self"
    and "\<forall>n \<in> set (nodes self). length (board n) = cols * rows"
    and "j < length (nodes self)" and "length regret = cfr_num_actions self"
  shows "(\<forall>n \<in> set (nodes self). visits n = 1 \<and> T n = 0) \<and>
         (\<exists>s0 r0 s1 s2 r2 s3 r3.
           train_iterations E k (self, regret) = Inr (s0, r0) \<and>
           forward_pass s0 = Inr s1 \<and>
           foldM (backward_node E) (rev [Suc j..<length (nodes self)]) (s1, r0) = Inr (s2, r2) \<and>
           (game_status E (num_rows self, num_cols self) (board (nodes s2 ! j)) = Undecided \<longrightarrow>
              0 < T (nodes s2 ! j) + visits (nodes s2 ! j)) \<and>
           backward_node E j (s2, r2) = Inr (s3, r3))"
proof -
  from FSICFR_init_wf[OF assms(1,2)] have wf: "cfr_wf self"
    and c: "\<forall>n \<in> set (nodes self). visits n = 1 \<and> T n = 0"
    by auto
  from training_runs[OF wf c assms(3,4), of E k] c show ?thesis by blast
qed

theorem regret_denominator_positive_witness:
  "\<exists>self p. FSICFR_init 6 dark_line hex_line 1 2 = Some self \<and>
     train_iterations hex_line 2 (self, [0, 0]) = Inr p"
proof -
  have "FSICFR_init 6 dark_line hex_line 1 2 \<noteq> None"
    by (simp add: FSICFR_init_def build_defs eval_nat_numeral)
  then obtain self where run: "FSICFR_init 6 dark_line hex_line 1 2 = Some self" by auto
  have "(\<forall>n \<in> set (nodes self). length (board n) = 2 * 1) \<and> 0 < length (nodes self) \<and>
     length [0::real, 0] = cfr_num_actions self"
    using run by (auto simp: FSICFR_init_def build_defs eval_nat_numeral)
  then have b: "\<forall>n \<in> set (nodes self). length (board n) = 2 * 1"
    and j: "0 < length (nodes self)"
    and r: "length [0::real, 0] = cfr_num_actions self"
    by blast+
  from regret_denominator_positive[OF run b j r, of 2] run show ?thesis by blast
qed

end
